theory Spec2Isabelle
  imports Main "HOL-Library.Word"
begin

unbundle bit_operations_syntax

section \<open>Machine types and memory\<close>

text \<open>
  The header \<^verbatim>\<open>char_view.h\<close> is a template over the code unit type \<open>charT\<close>. Here a code
  unit is a type variable \<open>'c\<close> with a zero (the terminator \<^verbatim>\<open>'\0'\<close>) and, where the source
  compares code units with \<^verbatim>\<open><\<close> and \<^verbatim>\<open>>\<close>, a linear order.

  \<^verbatim>\<open>size_t\<close> and \<^verbatim>\<open>ssize_t\<close> are 64-bit words (LP64): \<open>+\<close> and \<open>-\<close> wrap around, \<^verbatim>\<open>ssize_t\<close> is read
  in two's complement (\<open><s\<close>), and a conversion between the two keeps the bits. \<^verbatim>\<open>int\<close> and
  \<^verbatim>\<open>unsigned int\<close> are 32-bit words.

  A \<^verbatim>\<open>const charT*\<close> is modelled by the code units found from the address onwards: \<open>p i\<close> is
  \<^verbatim>\<open>p[i]\<close>, and \<open>ptr_add p n\<close> is \<^verbatim>\<open>p + n\<close>. Every read has a value in the model; the inputs of
  the closed theorems below are buffers whose reads all stay inside the buffer.
\<close>

type_synonym size_t = "64 word"
type_synonym ssize_t = "64 word"
type_synonym c_int = "32 word"
type_synonym c_uint = "32 word"
type_synonym 'c ptr = "nat \<Rightarrow> 'c"

definition ptr_add :: "'c ptr \<Rightarrow> nat \<Rightarrow> 'c ptr" where
  "ptr_add p n = (\<lambda>i. p (n + i))"

text \<open>A buffer holding the code units \<open>xs\<close>, followed by zero code units: a string literal
  \<^verbatim>\<open>"abc"\<close> is \<open>c_str [a, b, c]\<close>, whose unit at index 3 is the terminator.\<close>

definition c_str :: "'c::zero list \<Rightarrow> 'c ptr" where
  "c_str xs = (\<lambda>i. if i < length xs then xs ! i else 0)"

text \<open>\<^verbatim>\<open>static const size_t npos = -1;\<close>\<close>

definition npos :: size_t where
  "npos = - 1"

section \<open>Policies\<close>

datatype recursive_policy = RecursivePolicyEnabled | RecursivePolicyDisabled
datatype range_check_policy = RangeCheckPolicyEnabled | RangeCheckPolicyDisabled
datatype error_policy = ErrorPolicyThrowing | ErrorPolicyEmptyValue

text \<open>The exception thrown by \<^verbatim>\<open>ErrorPolicyThrowing\<close>:
  \<^verbatim>\<open>std::runtime_error("ERROR: basic_char_view - index out of bounds")\<close>.\<close>

datatype error = IndexOutOfBounds

text \<open>The template arguments of \<^verbatim>\<open>basic_char_view\<close> other than \<open>charT\<close>.\<close>

record policies =
  recursive :: recursive_policy
  range_check :: range_check_policy
  error_signal :: error_policy

text \<open>The configuration section of the header defines \<^verbatim>\<open>CV_DEF_RANGE_CHECK\<close>,
  \<^verbatim>\<open>CV_DEF_RANGE_ERR_THROWS\<close> and \<^verbatim>\<open>CV_DEF_RECURSIVE\<close>.\<close>

definition default_policies :: policies where
  "default_policies =
     \<lparr>recursive = RecursivePolicyEnabled,
      range_check = RangeCheckPolicyEnabled,
      error_signal = ErrorPolicyThrowing\<rparr>"

definition signal_range_check_error :: "error_policy \<Rightarrow> bool \<Rightarrow> 'c::zero \<Rightarrow> error + 'c" where
  "signal_range_check_error ep err errorResult =
     (case ep of
        ErrorPolicyThrowing \<Rightarrow> (if \<not> err then Inr 0 else Inl IndexOutOfBounds)
      | ErrorPolicyEmptyValue \<Rightarrow> Inr (if err then errorResult else 0))"

definition check_index_out_of_bounds :: "range_check_policy \<Rightarrow> size_t \<Rightarrow> size_t \<Rightarrow> bool" where
  "check_index_out_of_bounds rc a_size a_index =
     (case rc of
        RangeCheckPolicyEnabled \<Rightarrow> a_index \<ge> a_size
      | RangeCheckPolicyDisabled \<Rightarrow> False)"

definition check_is_empty :: "range_check_policy \<Rightarrow> size_t \<Rightarrow> bool" where
  "check_is_empty rc a_size =
     (case rc of
        RangeCheckPolicyEnabled \<Rightarrow> a_size = 0
      | RangeCheckPolicyDisabled \<Rightarrow> False)"

section \<open>The view type\<close>

record 'c basic_char_view =
  m_str :: "'c ptr"
  m_size :: size_t

text \<open>\<^verbatim>\<open>basic_char_view(const charT* a_str, int a_size)\<close>: the size parameter is an \<^verbatim>\<open>int\<close>, so
  a \<^verbatim>\<open>size_t\<close> argument is first narrowed to 32 bits (\<open>ucast\<close> at the call) and the
  \<^verbatim>\<open>int\<close> is then sign-extended into \<open>m_size\<close>.\<close>

definition char_view_n :: "'c ptr \<Rightarrow> c_int \<Rightarrow> 'c basic_char_view" where
  "char_view_n a_str a_size = \<lparr>m_str = a_str, m_size = scast a_size\<rparr>"

text \<open>\<^verbatim>\<open>this_type("")\<close>: the view of the empty literal, whose \<^verbatim>\<open>details::length\<close> is 0.\<close>

definition empty_view :: "'c::zero basic_char_view" where
  "empty_view = \<lparr>m_str = c_str [], m_size = 0\<rparr>"

text \<open>\<^verbatim>\<open>operator[]\<close> and \<^verbatim>\<open>at\<close>.\<close>

definition subscript :: "policies \<Rightarrow> 'c::zero basic_char_view \<Rightarrow> size_t \<Rightarrow> error + 'c" where
  "subscript pol v index =
     (if check_index_out_of_bounds (range_check pol) (m_size v) index
      then signal_range_check_error (error_signal pol) True 0
      else Inr (m_str v (unat index)))"

definition at :: "policies \<Rightarrow> 'c::zero basic_char_view \<Rightarrow> size_t \<Rightarrow> error + 'c" where
  "at pol v index = subscript pol v index"

text \<open>\<^verbatim>\<open>front()\<close> and \<^verbatim>\<open>back()\<close>, the single code unit forms (\<open>back\<close> is a keyword of
  Isabelle, hence the suffix).\<close>

definition front :: "policies \<Rightarrow> 'c::zero basic_char_view \<Rightarrow> error + 'c" where
  "front pol v = subscript pol v 0"

definition back_unit :: "policies \<Rightarrow> 'c::zero basic_char_view \<Rightarrow> error + 'c" where
  "back_unit pol v =
     (if check_is_empty (range_check pol) (m_size v)
      then signal_range_check_error (error_signal pol) True 0
      else subscript pol v (m_size v - 1))"

text \<open>\<^verbatim>\<open>substr(index, len)\<close>. In the out-of-bounds branch the second constructor argument is
  the value of \<^verbatim>\<open>signal_range_check_error(true, '\0')\<close>: the call throws under
  \<^verbatim>\<open>ErrorPolicyThrowing\<close>, and returns \<^verbatim>\<open>'\0'\<close>, the size 0, under \<^verbatim>\<open>ErrorPolicyEmptyValue\<close>.
  In the other branch \<^verbatim>\<open>index + len\<close> is a \<^verbatim>\<open>size_t\<close> sum and wraps around.\<close>

definition substr ::
  "policies \<Rightarrow> 'c::zero basic_char_view \<Rightarrow> size_t \<Rightarrow> size_t \<Rightarrow> error + 'c basic_char_view" where
  "substr pol v index len =
     (if check_index_out_of_bounds (range_check pol) (m_size v) index
      then (case signal_range_check_error (error_signal pol) True (0 :: 'c) of
              Inl e \<Rightarrow> Inl e
            | Inr c \<Rightarrow> Inr (char_view_n (c_str []) 0))
      else Inr (char_view_n (ptr_add (m_str v) (unat index))
                  (ucast (if index + len \<le> m_size v then len else m_size v - index))))"

text \<open>\<^verbatim>\<open>substr(index)\<close>: the default argument \<^verbatim>\<open>len = npos\<close>.\<close>

definition substr_from ::
  "policies \<Rightarrow> 'c::zero basic_char_view \<Rightarrow> size_t \<Rightarrow> error + 'c basic_char_view" where
  "substr_from pol v index = substr pol v index npos"

text \<open>\<^verbatim>\<open>front(a_len)\<close> and \<^verbatim>\<open>back(a_len)\<close>, the n-length forms.\<close>

definition front_n ::
  "policies \<Rightarrow> 'c::zero basic_char_view \<Rightarrow> size_t \<Rightarrow> error + 'c basic_char_view" where
  "front_n pol v a_len = substr pol v 0 (if a_len \<le> m_size v then a_len else m_size v)"

definition back_n ::
  "policies \<Rightarrow> 'c::zero basic_char_view \<Rightarrow> size_t \<Rightarrow> error + 'c basic_char_view" where
  "back_n pol v a_len =
     (if a_len = 0 then Inr empty_view
      else if a_len \<le> m_size v then substr pol v (m_size v - a_len) a_len
      else substr pol v 0 (m_size v))"

text \<open>The code units a view covers, in order.\<close>

definition content_of :: "'c basic_char_view \<Rightarrow> 'c list" where
  "content_of v = map (m_str v) [0 ..< unat (m_size v)]"

text \<open>The literal operator \<^verbatim>\<open>"..."_cv\<close>: \<^verbatim>\<open>char_view(s, n)\<close> with \<open>n\<close> the number of code units
  of the literal.\<close>

definition cv :: "'c::zero list \<Rightarrow> 'c basic_char_view" where
  "cv xs = char_view_n (c_str xs) (of_nat (length xs))"

text \<open>A \<^verbatim>\<open>char\<close> literal: the code units of an ASCII string, as 8-bit words.\<close>

definition lit :: "string \<Rightarrow> 8 word list" where
  "lit s = map of_char s"

section \<open>Code-unit primitives (namespace details)\<close>

lemma unat_pred_less: "w \<noteq> 0 \<Longrightarrow> unat (w - 1) < unat (w :: 'a::len word)"
  using unat_gt_0 [of w] by (simp add: unat_minus_one)

text \<open>\<^verbatim>\<open>details::length\<close>: \<^verbatim>\<open>*str ? 1 + length(str + 1) : 0\<close>. The recursion ends only at a
  terminator, so the function is partial: \<open>None\<close> is a scan that never returns.\<close>

partial_function (option) length_z :: "'c::zero ptr \<Rightarrow> size_t option" where
  "length_z str =
     (if str 0 \<noteq> 0 then Option.bind (length_z (ptr_add str 1)) (\<lambda>n. Some (1 + n)) else Some 0)"

text \<open>\<^verbatim>\<open>details::str_hash\<close>. The parameter \<open>to_int\<close> is the integral promotion of a code unit,
  converted to \<^verbatim>\<open>unsigned int\<close> for the exclusive or; the product wraps at 32 bits.\<close>

function str_hash :: "('c::zero \<Rightarrow> c_uint) \<Rightarrow> 'c ptr \<Rightarrow> size_t \<Rightarrow> size_t \<Rightarrow> c_uint" where
  "str_hash to_int str pos limit =
     (if limit = 0 \<or> str (unat pos) = 0 then 5381
      else to_int (str (unat pos)) XOR (33 * str_hash to_int str (pos + 1) (limit - 1)))"
  by pat_completeness auto
termination
  by (relation "measure (\<lambda>(to_int, str, pos, limit). unat limit)") (auto simp: unat_pred_less)

declare str_hash.simps [simp del]

text \<open>\<^verbatim>\<open>details::no_inline::str_hash_loop\<close>: its first loop walks \<open>end_pos\<close> forward while the
  limit lasts and the code unit is not the terminator, its second loop walks back to \<open>pos\<close>
  and folds. \<^verbatim>\<open>result\<close> is an \<^verbatim>\<open>int\<close> there; the model lets \<^verbatim>\<open>33 * result\<close> wrap at 32 bits,
  and the conversion of the returned \<^verbatim>\<open>int\<close> to \<^verbatim>\<open>unsigned int\<close> keeps the bits.\<close>

function str_hash_loop_scan :: "'c::zero ptr \<Rightarrow> size_t \<Rightarrow> size_t \<Rightarrow> size_t" where
  "str_hash_loop_scan str end_pos limit =
     (if limit \<noteq> 0 \<and> str (unat end_pos) \<noteq> 0
      then str_hash_loop_scan str (end_pos + 1) (limit - 1)
      else end_pos)"
  by pat_completeness auto
termination
  by (relation "measure (\<lambda>(str, end_pos, limit). unat limit)") (auto simp: unat_pred_less)

declare str_hash_loop_scan.simps [simp del]

function str_hash_loop_fold ::
  "('c \<Rightarrow> c_uint) \<Rightarrow> 'c ptr \<Rightarrow> size_t \<Rightarrow> size_t \<Rightarrow> c_uint \<Rightarrow> c_uint" where
  "str_hash_loop_fold to_int str pos end_pos result =
     (if end_pos > pos
      then str_hash_loop_fold to_int str pos (end_pos - 1)
             (to_int (str (unat (end_pos - 1))) XOR (33 * result))
      else result)"
  by pat_completeness auto
termination
proof (relation "measure (\<lambda>(to_int, str, pos, end_pos, result). unat end_pos)")
  show "wf (measure (\<lambda>(to_int, str, pos, end_pos, result). unat end_pos))"
    by simp
next
  fix to_int :: "'c \<Rightarrow> c_uint" and str :: "'c ptr" and pos end_pos :: size_t and result :: c_uint
  assume "pos < end_pos"
  then have "end_pos \<noteq> 0"
    by (auto simp: word_less_nat_alt)
  then show "((to_int, str, pos, end_pos - 1, to_int (str (unat (end_pos - 1))) XOR 33 * result),
              (to_int, str, pos, end_pos, result))
             \<in> measure (\<lambda>(to_int, str, pos, end_pos, result). unat end_pos)"
    by (simp add: unat_pred_less)
qed

declare str_hash_loop_fold.simps [simp del]

definition str_hash_loop :: "('c::zero \<Rightarrow> c_uint) \<Rightarrow> 'c ptr \<Rightarrow> size_t \<Rightarrow> size_t \<Rightarrow> c_uint" where
  "str_hash_loop to_int str pos limit =
     str_hash_loop_fold to_int str pos (str_hash_loop_scan str pos limit) 5381"

section \<open>Scanning algorithms (namespace details)\<close>

text \<open>In each function \<^verbatim>\<open>content + 1\<close> is \<open>ptr_add content 1\<close>, \<^verbatim>\<open>!content[0]\<close> is
  \<open>content 0 = 0\<close>, and a \<^verbatim>\<open>search_limit\<close> of type \<^verbatim>\<open>ssize_t\<close> is tested with \<open><s\<close>. The default
  argument \<^verbatim>\<open>search_limit = -1\<close> is passed by the callers below.\<close>

function starts_with :: "'c::zero ptr \<Rightarrow> 'c ptr \<Rightarrow> size_t \<Rightarrow> ssize_t \<Rightarrow> bool" where
  "starts_with content search_text content_limit search_limit =
     (if search_limit = 0 then True
      else if content_limit = 0 then
        (if search_limit <s 0 then search_text 0 = 0 else False)
      else if content 0 \<noteq> search_text 0 then search_text 0 = 0
      else if content 0 = 0 then True
      else starts_with (ptr_add content 1) (ptr_add search_text 1)
             (content_limit - 1) (search_limit - 1))"
  by pat_completeness auto
termination
  by (relation "measure (\<lambda>(content, search_text, content_limit, search_limit). unat content_limit)")
    (auto simp: unat_pred_less)

declare starts_with.simps [simp del]

function common_length :: "'c::zero ptr \<Rightarrow> 'c ptr \<Rightarrow> size_t \<Rightarrow> ssize_t \<Rightarrow> size_t \<Rightarrow> size_t" where
  "common_length content search_text content_limit search_limit match_len =
     (if search_limit = 0 then match_len
      else if content_limit = 0 then match_len
      else if content 0 \<noteq> search_text 0 then match_len
      else if content 0 = 0 then match_len
      else common_length (ptr_add content 1) (ptr_add search_text 1)
             (content_limit - 1) (search_limit - 1) (match_len + 1))"
  by pat_completeness auto
termination
  by (relation "measure (\<lambda>(content, search_text, content_limit, search_limit, match_len).
                           unat content_limit)")
    (auto simp: unat_pred_less)

declare common_length.simps [simp del]

function compare :: "'c::{zero,linorder} ptr \<Rightarrow> 'c ptr \<Rightarrow> size_t \<Rightarrow> ssize_t \<Rightarrow> c_int" where
  "compare content search_text content_limit search_limit =
     (if search_limit = 0 then (if content_limit = 0 then 0 else 1)
      else if content_limit = 0 then (if search_text 0 = 0 then 0 else - 1)
      else if content 0 > search_text 0 then 1
      else if content 0 < search_text 0 then - 1
      else if content 0 = 0 then 0
      else compare (ptr_add content 1) (ptr_add search_text 1)
             (content_limit - 1) (search_limit - 1))"
  by pat_completeness auto
termination
  by (relation "measure (\<lambda>(content, search_text, content_limit, search_limit). unat content_limit)")
    (auto simp: unat_pred_less)

declare compare.simps [simp del]

function contains :: "'c::{zero,linorder} ptr \<Rightarrow> 'c ptr \<Rightarrow> size_t \<Rightarrow> size_t \<Rightarrow> bool" where
  "contains content search_text content_limit search_limit =
     (if content_limit < search_limit then False
      else if content_limit = 0 then search_limit = 0
      else if compare content search_text search_limit search_limit = 0 then True
      else contains (ptr_add content 1) search_text (content_limit - 1) search_limit)"
  by pat_completeness auto
termination
  by (relation "measure (\<lambda>(content, search_text, content_limit, search_limit). unat content_limit)")
    (auto simp: unat_pred_less)

declare contains.simps [simp del]

text \<open>The position functions return an \<^verbatim>\<open>ssize_t\<close>, \<open>- 1\<close> for "not found"; an offset of type
  \<^verbatim>\<open>size_t\<close> is returned with its bits kept.\<close>

function index_of :: "'c::zero ptr \<Rightarrow> 'c ptr \<Rightarrow> size_t \<Rightarrow> size_t \<Rightarrow> size_t \<Rightarrow> ssize_t" where
  "index_of content search_text content_limit search_limit offset =
     (if content_limit < search_limit then - 1
      else if content_limit = 0 then (if search_limit = 0 then offset else - 1)
      else if starts_with content search_text search_limit search_limit then offset
      else index_of (ptr_add content 1) search_text (content_limit - 1) search_limit (offset + 1))"
  by pat_completeness auto
termination
  by (relation "measure (\<lambda>(content, search_text, content_limit, search_limit, offset).
                           unat content_limit)")
    (auto simp: unat_pred_less)

declare index_of.simps [simp del]

function index_of_any :: "'c::zero ptr \<Rightarrow> 'c ptr \<Rightarrow> size_t \<Rightarrow> size_t \<Rightarrow> size_t \<Rightarrow> ssize_t" where
  "index_of_any content search_set content_limit search_limit offset =
     (if content_limit = 0 then - 1
      else if search_limit = 0 then - 1
      else if 0 \<le>s index_of search_set content search_limit 1 0 then offset
      else index_of_any (ptr_add content 1) search_set (content_limit - 1) search_limit
             (offset + 1))"
  by pat_completeness auto
termination
  by (relation "measure (\<lambda>(content, search_set, content_limit, search_limit, offset).
                           unat content_limit)")
    (auto simp: unat_pred_less)

declare index_of_any.simps [simp del]

function index_of_nonmatching ::
  "'c::zero ptr \<Rightarrow> 'c ptr \<Rightarrow> size_t \<Rightarrow> size_t \<Rightarrow> size_t \<Rightarrow> ssize_t" where
  "index_of_nonmatching content search_set content_limit search_limit offset =
     (if content_limit = 0 then (if search_limit = 0 then offset else - 1)
      else if index_of search_set content search_limit 1 0 <s 0 then offset
      else index_of_nonmatching (ptr_add content 1) search_set (content_limit - 1) search_limit
             (offset + 1))"
  by pat_completeness auto
termination
  by (relation "measure (\<lambda>(content, search_set, content_limit, search_limit, offset).
                           unat content_limit)")
    (auto simp: unat_pred_less)

declare index_of_nonmatching.simps [simp del]

function last_index_of ::
  "'c::{zero,linorder} ptr \<Rightarrow> 'c ptr \<Rightarrow> size_t \<Rightarrow> size_t \<Rightarrow> size_t \<Rightarrow> ssize_t \<Rightarrow> ssize_t" where
  "last_index_of content search_text content_limit search_limit offset found_pos =
     (if content_limit < search_limit then found_pos
      else if content_limit = 0 then (if search_limit = 0 then offset else found_pos)
      else if compare content search_text search_limit search_limit = 0
      then last_index_of (ptr_add content 1) search_text (content_limit - 1) search_limit
             (offset + 1) offset
      else last_index_of (ptr_add content 1) search_text (content_limit - 1) search_limit
             (offset + 1) found_pos)"
  by pat_completeness auto
termination
  by (relation "measure (\<lambda>(content, search_text, content_limit, search_limit, offset, found_pos).
                           unat content_limit)")
    (auto simp: unat_pred_less)

declare last_index_of.simps [simp del]

function last_index_of_any ::
  "'c::zero ptr \<Rightarrow> 'c ptr \<Rightarrow> size_t \<Rightarrow> size_t \<Rightarrow> size_t \<Rightarrow> ssize_t \<Rightarrow> ssize_t" where
  "last_index_of_any content search_set content_limit search_limit offset found_pos =
     (if content_limit = 0 then (if search_limit = 0 then - 1 else found_pos)
      else if 0 \<le>s index_of search_set content search_limit 1 0
      then last_index_of_any (ptr_add content 1) search_set (content_limit - 1) search_limit
             (offset + 1) offset
      else last_index_of_any (ptr_add content 1) search_set (content_limit - 1) search_limit
             (offset + 1) found_pos)"
  by pat_completeness auto
termination
  by (relation "measure (\<lambda>(content, search_set, content_limit, search_limit, offset, found_pos).
                           unat content_limit)")
    (auto simp: unat_pred_less)

declare last_index_of_any.simps [simp del]

function last_index_of_nonmatching ::
  "'c::zero ptr \<Rightarrow> 'c ptr \<Rightarrow> size_t \<Rightarrow> size_t \<Rightarrow> size_t \<Rightarrow> ssize_t \<Rightarrow> ssize_t" where
  "last_index_of_nonmatching content search_set content_limit search_limit offset found_pos =
     (if content_limit = 0 then (if search_limit = 0 then offset else found_pos)
      else if index_of search_set content search_limit 1 0 <s 0
      then last_index_of_nonmatching (ptr_add content 1) search_set (content_limit - 1)
             search_limit (offset + 1) offset
      else last_index_of_nonmatching (ptr_add content 1) search_set (content_limit - 1)
             search_limit (offset + 1) found_pos)"
  by pat_completeness auto
termination
  by (relation "measure (\<lambda>(content, search_set, content_limit, search_limit, offset, found_pos).
                           unat content_limit)")
    (auto simp: unat_pred_less)

declare last_index_of_nonmatching.simps [simp del]

section \<open>Scanning methods of the view\<close>

text \<open>\<^verbatim>\<open>std::basic_string<charT>(s, n)\<close>, used by the iterative overloads: the \<open>n\<close> code units
  from \<open>s\<close>; \<^verbatim>\<open>==\<close> on two such strings is equality of the lists.\<close>

definition std_string :: "'c ptr \<Rightarrow> size_t \<Rightarrow> 'c list" where
  "std_string s n = map s [0 ..< unat n]"

text \<open>\<^verbatim>\<open>starts_with(const charT* a_str, size_t a_len)\<close>, dispatching on the recursive policy to
  its two private overloads.\<close>

definition view_starts_with ::
  "recursive_policy \<Rightarrow> 'c::zero basic_char_view \<Rightarrow> 'c ptr \<Rightarrow> size_t \<Rightarrow> bool" where
  "view_starts_with rp v a_str a_len =
     (case rp of
        RecursivePolicyDisabled \<Rightarrow>
          std_string a_str (min a_len (m_size v)) = std_string (m_str v) (m_size v)
      | RecursivePolicyEnabled \<Rightarrow> starts_with (m_str v) a_str (m_size v) a_len)"

text \<open>The remaining methods are the overloads for \<^verbatim>\<open>RecursivePolicyEnabled\<close>, the default; the
  overloads for \<^verbatim>\<open>RecursivePolicyDisabled\<close> delegate to \<^verbatim>\<open>std::basic_string\<close>. The suffix \<open>_z\<close>
  marks the overload for a zero-terminated string, \<open>_v\<close> the one for a view; the overload for
  a buffer with its length has the source's name where that name is free.\<close>

definition view_equals_z :: "'c::zero basic_char_view \<Rightarrow> 'c ptr \<Rightarrow> bool" where
  "view_equals_z v a_str \<longleftrightarrow>
     common_length (m_str v) a_str (m_size v) (- 1) 0 = m_size v \<and> a_str (unat (m_size v)) = 0"

definition view_compare_z :: "'c::{zero,linorder} basic_char_view \<Rightarrow> 'c ptr \<Rightarrow> c_int" where
  "view_compare_z v a_str = compare (m_str v) a_str (m_size v) (- 1)"

definition view_compare_v ::
  "'c::{zero,linorder} basic_char_view \<Rightarrow> 'c basic_char_view \<Rightarrow> c_int" where
  "view_compare_v v a_str = compare (m_str v) (m_str a_str) (m_size v) (m_size a_str)"

definition view_contains :: "'c::{zero,linorder} basic_char_view \<Rightarrow> 'c ptr \<Rightarrow> size_t \<Rightarrow> bool" where
  "view_contains v a_str a_len = contains (m_str v) a_str (m_size v) a_len"

definition view_contains_v ::
  "'c::{zero,linorder} basic_char_view \<Rightarrow> 'c basic_char_view \<Rightarrow> bool" where
  "view_contains_v v a_str = contains (m_str v) (m_str a_str) (m_size v) (m_size a_str)"

definition find_cn :: "'c::zero basic_char_view \<Rightarrow> 'c ptr \<Rightarrow> size_t \<Rightarrow> size_t" where
  "find_cn v a_str a_len = index_of (m_str v) a_str (m_size v) a_len 0"

definition find_v :: "'c::zero basic_char_view \<Rightarrow> 'c basic_char_view \<Rightarrow> size_t" where
  "find_v v a_str = index_of (m_str v) (m_str a_str) (m_size v) (m_size a_str) 0"

definition rfind_cn :: "'c::{zero,linorder} basic_char_view \<Rightarrow> 'c ptr \<Rightarrow> size_t \<Rightarrow> size_t" where
  "rfind_cn v a_str a_len = last_index_of (m_str v) a_str (m_size v) a_len 0 (- 1)"

definition find_first_of_cn :: "'c::zero basic_char_view \<Rightarrow> 'c ptr \<Rightarrow> size_t \<Rightarrow> size_t" where
  "find_first_of_cn v a_str a_len = index_of_any (m_str v) a_str (m_size v) a_len 0"

definition find_first_not_of_cn :: "'c::zero basic_char_view \<Rightarrow> 'c ptr \<Rightarrow> size_t \<Rightarrow> size_t" where
  "find_first_not_of_cn v a_str a_len = index_of_nonmatching (m_str v) a_str (m_size v) a_len 0"

definition find_last_of_cn :: "'c::zero basic_char_view \<Rightarrow> 'c ptr \<Rightarrow> size_t \<Rightarrow> size_t" where
  "find_last_of_cn v a_str a_len = last_index_of_any (m_str v) a_str (m_size v) a_len 0 (- 1)"

definition find_last_not_of_cn :: "'c::zero basic_char_view \<Rightarrow> 'c ptr \<Rightarrow> size_t \<Rightarrow> size_t" where
  "find_last_not_of_cn v a_str a_len =
     last_index_of_nonmatching (m_str v) a_str (m_size v) a_len 0 (- 1)"

text \<open>The four call shapes of a search argument: a zero-terminated string, a buffer with its
  length, another view, and a \<^verbatim>\<open>std::basic_string\<close> (seen through \<^verbatim>\<open>c_str()\<close> and \<^verbatim>\<open>size()\<close>).\<close>

datatype 'c search_arg =
    ArgZ "'c ptr"
  | ArgBuf "'c ptr" size_t
  | ArgView "'c basic_char_view"
  | ArgString "'c ptr" size_t

text \<open>The pointer and the length that an overload passes on. For a zero-terminated string the
  length is scanned (\<^verbatim>\<open>details::length\<close>, or \<^verbatim>\<open>traits::length\<close> inside \<^verbatim>\<open>std::basic_string\<close>), and
  the scan may not return.\<close>

definition arg_buffer :: "'c::zero search_arg \<Rightarrow> ('c ptr \<times> size_t) option" where
  "arg_buffer arg =
     (case arg of
        ArgZ a_str \<Rightarrow> map_option (\<lambda>n. (a_str, n)) (length_z a_str)
      | ArgBuf a_str a_len \<Rightarrow> Some (a_str, a_len)
      | ArgView a \<Rightarrow> Some (m_str a, m_size a)
      | ArgString a_str a_len \<Rightarrow> Some (a_str, a_len))"

text \<open>The members of \<^verbatim>\<open>std::basic_string\<close> that the overloads for \<^verbatim>\<open>RecursivePolicyDisabled\<close>
  call, as the C++ standard defines them: \<^verbatim>\<open>find(s, pos, n)\<close> is the lowest \<open>xpos\<close> with
  \<open>pos \<le> xpos\<close> and \<open>xpos + n \<le> size()\<close> at which the \<open>n\<close> code units match, \<^verbatim>\<open>rfind\<close> the highest
  with \<open>xpos \<le> pos\<close>; \<^verbatim>\<open>find_first_of\<close> and \<^verbatim>\<open>find_first_not_of\<close> are the lowest \<open>xpos\<close> with
  \<open>pos \<le> xpos\<close> and \<open>xpos < size()\<close> whose code unit is (is not) one of the \<open>n\<close>, \<^verbatim>\<open>find_last_of\<close>
  and \<^verbatim>\<open>find_last_not_of\<close> the highest with \<open>xpos \<le> pos\<close>; each is \<open>npos\<close> when there is none.
  \<open>xs\<close> is the string, \<open>ys\<close> the \<open>n\<close> code units of the argument.\<close>

definition found_first :: "nat list \<Rightarrow> size_t" where
  "found_first is = (case is of [] \<Rightarrow> npos | i # _ \<Rightarrow> of_nat i)"

definition found_last :: "nat list \<Rightarrow> size_t" where
  "found_last is = (if is = [] then npos else of_nat (last is))"

definition match_at :: "'c list \<Rightarrow> 'c list \<Rightarrow> nat \<Rightarrow> bool" where
  "match_at xs ys i \<longleftrightarrow> i + length ys \<le> length xs \<and> take (length ys) (drop i xs) = ys"

definition std_find :: "'c list \<Rightarrow> 'c list \<Rightarrow> size_t \<Rightarrow> size_t" where
  "std_find xs ys pos =
     found_first (filter (\<lambda>i. unat pos \<le> i \<and> match_at xs ys i) [0 ..< Suc (length xs)])"

definition std_rfind :: "'c list \<Rightarrow> 'c list \<Rightarrow> size_t \<Rightarrow> size_t" where
  "std_rfind xs ys pos =
     found_last (filter (\<lambda>i. i \<le> unat pos \<and> match_at xs ys i) [0 ..< Suc (length xs)])"

definition std_find_first_of :: "'c list \<Rightarrow> 'c list \<Rightarrow> size_t \<Rightarrow> size_t" where
  "std_find_first_of xs ys pos =
     found_first (filter (\<lambda>i. unat pos \<le> i \<and> xs ! i \<in> set ys) [0 ..< length xs])"

definition std_find_first_not_of :: "'c list \<Rightarrow> 'c list \<Rightarrow> size_t \<Rightarrow> size_t" where
  "std_find_first_not_of xs ys pos =
     found_first (filter (\<lambda>i. unat pos \<le> i \<and> xs ! i \<notin> set ys) [0 ..< length xs])"

definition std_find_last_of :: "'c list \<Rightarrow> 'c list \<Rightarrow> size_t \<Rightarrow> size_t" where
  "std_find_last_of xs ys pos =
     found_last (filter (\<lambda>i. i \<le> unat pos \<and> xs ! i \<in> set ys) [0 ..< length xs])"

definition std_find_last_not_of :: "'c list \<Rightarrow> 'c list \<Rightarrow> size_t \<Rightarrow> size_t" where
  "std_find_last_not_of xs ys pos =
     found_last (filter (\<lambda>i. i \<le> unat pos \<and> xs ! i \<notin> set ys) [0 ..< length xs])"

text \<open>The start position of the iterative \<^verbatim>\<open>rfind\<close>: the overloads for a buffer and for a
  view call \<^verbatim>\<open>rfind(a_str, 0, a_len)\<close>, those for a zero-terminated string and for a
  \<^verbatim>\<open>std::basic_string\<close> call \<^verbatim>\<open>rfind(a_str)\<close>, whose default position is \<open>npos\<close>.\<close>

definition last_pos :: "'c search_arg \<Rightarrow> size_t" where
  "last_pos arg =
     (case arg of ArgZ a_str \<Rightarrow> npos | ArgBuf a_str a_len \<Rightarrow> 0 | ArgView a \<Rightarrow> 0
      | ArgString a_str a_len \<Rightarrow> npos)"

text \<open>The six public search methods, each dispatching on the recursive policy and on the call
  shape: under \<^verbatim>\<open>RecursivePolicyEnabled\<close> every shape calls the function of namespace details
  with the argument's pointer and length (the \<open>_cn\<close> definitions above), under
  \<^verbatim>\<open>RecursivePolicyDisabled\<close> every shape calls the member of
  \<^verbatim>\<open>std::basic_string<charT>(m_str, m_size)\<close>, from position 0 for the forward searches and
  from \<open>npos\<close> for \<^verbatim>\<open>find_last_of\<close> and \<^verbatim>\<open>find_last_not_of\<close>. The result is \<open>None\<close> when the length
  scan of a zero-terminated argument does not return.\<close>

definition view_find ::
  "recursive_policy \<Rightarrow> 'c::zero basic_char_view \<Rightarrow> 'c search_arg \<Rightarrow> size_t option" where
  "view_find rp v arg =
     map_option
       (\<lambda>(a_str, a_len).
          case rp of
            RecursivePolicyDisabled \<Rightarrow>
              std_find (std_string (m_str v) (m_size v)) (std_string a_str a_len) 0
          | RecursivePolicyEnabled \<Rightarrow> find_cn v a_str a_len)
       (arg_buffer arg)"

definition view_rfind ::
  "recursive_policy \<Rightarrow> 'c::{zero,linorder} basic_char_view \<Rightarrow> 'c search_arg \<Rightarrow> size_t option" where
  "view_rfind rp v arg =
     map_option
       (\<lambda>(a_str, a_len).
          case rp of
            RecursivePolicyDisabled \<Rightarrow>
              std_rfind (std_string (m_str v) (m_size v)) (std_string a_str a_len) (last_pos arg)
          | RecursivePolicyEnabled \<Rightarrow> rfind_cn v a_str a_len)
       (arg_buffer arg)"

definition view_find_first_of ::
  "recursive_policy \<Rightarrow> 'c::zero basic_char_view \<Rightarrow> 'c search_arg \<Rightarrow> size_t option" where
  "view_find_first_of rp v arg =
     map_option
       (\<lambda>(a_str, a_len).
          case rp of
            RecursivePolicyDisabled \<Rightarrow>
              std_find_first_of (std_string (m_str v) (m_size v)) (std_string a_str a_len) 0
          | RecursivePolicyEnabled \<Rightarrow> find_first_of_cn v a_str a_len)
       (arg_buffer arg)"

definition view_find_first_not_of ::
  "recursive_policy \<Rightarrow> 'c::zero basic_char_view \<Rightarrow> 'c search_arg \<Rightarrow> size_t option" where
  "view_find_first_not_of rp v arg =
     map_option
       (\<lambda>(a_str, a_len).
          case rp of
            RecursivePolicyDisabled \<Rightarrow>
              std_find_first_not_of (std_string (m_str v) (m_size v)) (std_string a_str a_len) 0
          | RecursivePolicyEnabled \<Rightarrow> find_first_not_of_cn v a_str a_len)
       (arg_buffer arg)"

definition view_find_last_of ::
  "recursive_policy \<Rightarrow> 'c::zero basic_char_view \<Rightarrow> 'c search_arg \<Rightarrow> size_t option" where
  "view_find_last_of rp v arg =
     map_option
       (\<lambda>(a_str, a_len).
          case rp of
            RecursivePolicyDisabled \<Rightarrow>
              std_find_last_of (std_string (m_str v) (m_size v)) (std_string a_str a_len) npos
          | RecursivePolicyEnabled \<Rightarrow> find_last_of_cn v a_str a_len)
       (arg_buffer arg)"

definition view_find_last_not_of ::
  "recursive_policy \<Rightarrow> 'c::zero basic_char_view \<Rightarrow> 'c search_arg \<Rightarrow> size_t option" where
  "view_find_last_not_of rp v arg =
     map_option
       (\<lambda>(a_str, a_len).
          case rp of
            RecursivePolicyDisabled \<Rightarrow>
              std_find_last_not_of (std_string (m_str v) (m_size v)) (std_string a_str a_len) npos
          | RecursivePolicyEnabled \<Rightarrow> find_last_not_of_cn v a_str a_len)
       (arg_buffer arg)"

text \<open>The global operators \<^verbatim>\<open>==\<close> and \<^verbatim>\<open>!=\<close> between a view and a \<^verbatim>\<open>const char*\<close>:
  \<^verbatim>\<open>ltr.equals(rtr)\<close> and \<^verbatim>\<open>ltr.compare(rtr) != 0\<close>.\<close>

definition op_eq_z :: "'c::{zero,linorder} basic_char_view \<Rightarrow> 'c ptr \<Rightarrow> bool" where
  "op_eq_z ltr rtr = view_equals_z ltr rtr"

definition op_ne_z :: "'c::{zero,linorder} basic_char_view \<Rightarrow> 'c ptr \<Rightarrow> bool" where
  "op_ne_z ltr rtr \<longleftrightarrow> view_compare_z ltr rtr \<noteq> 0"

text \<open>The sign of an \<^verbatim>\<open>int\<close> result: \<open>- 1\<close>, \<open>0\<close> or \<open>1\<close>.\<close>

definition sign :: "c_int \<Rightarrow> int" where
  "sign x = sgn (sint x)"

section \<open>Notions used in the statements\<close>

text \<open>The code units \<^verbatim>\<open>str[pos]\<close>, \<^verbatim>\<open>str[pos + 1]\<close>, ... that a hash covers: at most \<open>limit\<close> of
  them, and only those before the first terminator.\<close>

definition hashed_units :: "'c::zero ptr \<Rightarrow> size_t \<Rightarrow> size_t \<Rightarrow> 'c list" where
  "hashed_units str pos limit =
     takeWhile (\<lambda>c. c \<noteq> 0) (map str [unat pos ..< unat pos + unat limit])"

text \<open>The fold of the specification: the accumulator starts at 5381 and each code unit \<open>c\<close>,
  taken in reverse order of appearance, replaces it by \<open>c XOR (33 * acc)\<close>, in 32 bits.\<close>

definition djb_fold :: "('c \<Rightarrow> c_uint) \<Rightarrow> 'c list \<Rightarrow> c_uint" where
  "djb_fold to_int cs = fold (\<lambda>c acc. to_int c XOR (33 * acc)) (rev cs) 5381"

text \<open>A position result \<open>r\<close> for a view of size \<open>n\<close>: the sentinel or an index below \<open>n\<close>.\<close>

definition position_in :: "size_t \<Rightarrow> size_t \<Rightarrow> bool" where
  "position_in r n \<longleftrightarrow> r = npos \<or> r < n"

text \<open>A buffer \<open>(p, n)\<close> without a terminator among its \<open>n\<close> code units.\<close>

definition nul_free :: "'c::zero ptr \<Rightarrow> size_t \<Rightarrow> bool" where
  "nul_free p n \<longleftrightarrow> 0 \<notin> set (std_string p n)"

text \<open>Modelled from the spec: \<^verbatim>\<open>trim\<close> is called by the test \<^verbatim>\<open>TestTrim\<close> but is not a member of
  \<^verbatim>\<open>basic_char_view\<close> in \<^verbatim>\<open>char_view.h\<close>. The specification says it "returns the sub-view
  bounded by the first and last code units not in the whitespace set; an all-whitespace or
  empty input yields a zero-length view", and that it builds on index-of-not-any. The
  whitespace set is not listed there and is the parameter \<open>ws\<close>. \<open>first_not_in\<close> is the index
  of the first code unit outside \<open>ws\<close>, \<open>last_not_in_end\<close> is one past the index of the last.\<close>

definition first_not_in :: "'c set \<Rightarrow> 'c list \<Rightarrow> nat" where
  "first_not_in ws cs = length (takeWhile (\<lambda>c. c \<in> ws) cs)"

definition last_not_in_end :: "'c set \<Rightarrow> 'c list \<Rightarrow> nat" where
  "last_not_in_end ws cs = length cs - length (takeWhile (\<lambda>c. c \<in> ws) (rev cs))"

definition trim :: "'c set \<Rightarrow> 'c basic_char_view \<Rightarrow> 'c basic_char_view" where
  "trim ws v =
     (let cs = content_of v; i = first_not_in ws cs; j = last_not_in_end ws cs
      in if j \<le> i then \<lparr>m_str = m_str v, m_size = 0\<rparr>
         else \<lparr>m_str = ptr_add (m_str v) i, m_size = of_nat (j - i)\<rparr>)"

text \<open>The literal \<^verbatim>\<open>"  \t test1  \t "\<close> of \<^verbatim>\<open>TestTrim\<close>: space is 32, tab is 9.\<close>

definition padded_test1 :: "8 word list" where
  "padded_test1 = [32, 32, 9, 32] @ lit ''test1'' @ [32, 32, 9, 32]"

section \<open>Bounds checking\<close>

text \<open>
  Claim C8. Under the default configuration (range check enabled, errors raised) every
  out-of-bounds access raises: \<^verbatim>\<open>operator[]\<close> and \<^verbatim>\<open>at\<close> with an index not below the size,
  \<^verbatim>\<open>front()\<close> and \<^verbatim>\<open>back()\<close> on an empty view, and \<^verbatim>\<open>substr\<close> with a start not below the size;
  \<^verbatim>\<open>operator[]\<close> with an index below the size returns the code unit at that index.
\<close>

theorem out_of_bounds_raises:
  fixes v :: "'c::zero basic_char_view"
  assumes "range_check pol = RangeCheckPolicyEnabled"
    and "error_signal pol = ErrorPolicyThrowing"
  shows "(index \<ge> m_size v \<longrightarrow>
            subscript pol v index = Inl IndexOutOfBounds
          \<and> at pol v index = Inl IndexOutOfBounds
          \<and> substr pol v index len = Inl IndexOutOfBounds)
       \<and> (m_size v = 0 \<longrightarrow>
            front pol v = Inl IndexOutOfBounds \<and> back_unit pol v = Inl IndexOutOfBounds)
       \<and> (index < m_size v \<longrightarrow> subscript pol v index = Inr (m_str v (unat index)))"
  using assms
  by (auto simp: subscript_def at_def front_def back_unit_def substr_def
      check_index_out_of_bounds_def check_is_empty_def signal_range_check_error_def)

theorem out_of_bounds_raises_witness:
  "subscript default_policies (cv [65, 98 :: 8 word]) 2 = Inl IndexOutOfBounds
   \<and> at default_policies (cv [65, 98 :: 8 word]) 2 = Inl IndexOutOfBounds
   \<and> substr default_policies (cv [65, 98 :: 8 word]) 2 5 = Inl IndexOutOfBounds
   \<and> front default_policies (cv ([] :: 8 word list)) = Inl IndexOutOfBounds
   \<and> back_unit default_policies (cv ([] :: 8 word list)) = Inl IndexOutOfBounds
   \<and> subscript default_policies (cv [65, 98 :: 8 word]) 1 = Inr 98"
  using out_of_bounds_raises [of default_policies "cv [65, 98 :: 8 word]" 2 5]
    out_of_bounds_raises [of default_policies "cv ([] :: 8 word list)" 0 0]
    out_of_bounds_raises [of default_policies "cv [65, 98 :: 8 word]" 1 0]
  by (simp add: default_policies_def cv_def char_view_n_def c_str_def)

section \<open>The two hash paths\<close>

lemma unat_succ: "unat (w :: size_t) + 1 < 2 ^ 64 \<Longrightarrow> unat (w + 1) = unat w + 1"
  using unat_add_lem [of w 1] by simp

lemma unat_all_ones: "unat (- 1 :: 64 word) = 18446744073709551615"
  by (simp add: unsigned_minus_1_eq_mask mask_eq_exp_minus_1)

lemma hashed_units_stop:
  "limit = 0 \<or> str (unat pos) = 0 \<Longrightarrow> hashed_units str pos limit = []"
proof (cases "limit = 0")
  case True
  then show ?thesis
    by (simp add: hashed_units_def)
next
  case False
  assume "limit = 0 \<or> str (unat pos) = 0"
  with False have "str (unat pos) = 0"
    by simp
  moreover from False have "unat pos < unat pos + unat limit"
    by (simp add: unat_gt_0)
  ultimately show ?thesis
    by (simp add: hashed_units_def upt_conv_Cons)
qed

lemma hashed_units_nonempty:
  "limit \<noteq> 0 \<Longrightarrow> str (unat pos) \<noteq> 0 \<Longrightarrow> hashed_units str pos limit \<noteq> []"
  using unat_gt_0 [of limit] by (simp add: hashed_units_def upt_conv_Cons)

lemma hashed_units_step:
  assumes "limit \<noteq> 0" and "str (unat pos) \<noteq> 0" and "unat pos + 1 < 2 ^ 64"
  shows "hashed_units str pos limit = str (unat pos) # hashed_units str (pos + 1) (limit - 1)"
proof -
  have pos: "0 < unat limit"
    using assms(1) by (simp add: unat_gt_0)
  then have "[unat pos ..< unat pos + unat limit]
             = unat pos # [unat pos + 1 ..< unat pos + 1 + (unat limit - 1)]"
    by (simp add: upt_conv_Cons)
  moreover have "unat (limit - 1) = unat limit - 1"
    using assms(1) by (simp add: unat_minus_one)
  ultimately show ?thesis
    using assms(2,3) by (simp add: hashed_units_def unat_succ)
qed

lemma djb_fold_Cons: "djb_fold to_int (c # cs) = to_int c XOR (33 * djb_fold to_int cs)"
  by (simp add: djb_fold_def)

lemma str_hash_is_fold:
  "unat pos + length (hashed_units str pos limit) < 2 ^ 64 \<Longrightarrow>
   str_hash to_int str pos limit = djb_fold to_int (hashed_units str pos limit)"
proof (induction to_int str pos limit rule: str_hash.induct)
  case (1 to_int str pos limit)
  show ?case
  proof (cases "limit = 0 \<or> str (unat pos) = 0")
    case True
    then show ?thesis
      by (subst str_hash.simps) (simp add: hashed_units_stop djb_fold_def)
  next
    case False
    then have "hashed_units str pos limit \<noteq> []"
      by (simp add: hashed_units_nonempty)
    then have "0 < length (hashed_units str pos limit)"
      by simp
    with "1.prems" have room: "unat pos + 1 < 2 ^ 64"
      by linarith
    with False have hu:
      "hashed_units str pos limit = str (unat pos) # hashed_units str (pos + 1) (limit - 1)"
      by (simp add: hashed_units_step)
    with "1.prems" room have "unat (pos + 1) + length (hashed_units str (pos + 1) (limit - 1)) < 2 ^ 64"
      by (simp add: unat_succ)
    with False "1.IH" have
      "str_hash to_int str (pos + 1) (limit - 1)
       = djb_fold to_int (hashed_units str (pos + 1) (limit - 1))"
      by simp
    with False hu show ?thesis
      by (subst str_hash.simps) (simp add: djb_fold_Cons)
  qed
qed

lemma scan_end:
  "unat e + length (hashed_units str e limit) < 2 ^ 64 \<Longrightarrow>
   unat (str_hash_loop_scan str e limit) = unat e + length (hashed_units str e limit)"
proof (induction str e limit rule: str_hash_loop_scan.induct)
  case (1 str e limit)
  show ?case
  proof (cases "limit = 0 \<or> str (unat e) = 0")
    case True
    then show ?thesis
      by (subst str_hash_loop_scan.simps) (auto simp: hashed_units_stop)
  next
    case False
    then have "hashed_units str e limit \<noteq> []"
      by (simp add: hashed_units_nonempty)
    then have "0 < length (hashed_units str e limit)"
      by simp
    with "1.prems" have room: "unat e + 1 < 2 ^ 64"
      by linarith
    with False have hu:
      "hashed_units str e limit = str (unat e) # hashed_units str (e + 1) (limit - 1)"
      by (simp add: hashed_units_step)
    with "1.prems" room have "unat (e + 1) + length (hashed_units str (e + 1) (limit - 1)) < 2 ^ 64"
      by (simp add: unat_succ)
    with False "1.IH" have
      "unat (str_hash_loop_scan str (e + 1) (limit - 1))
       = unat (e + 1) + length (hashed_units str (e + 1) (limit - 1))"
      by simp
    with False hu room show ?thesis
      by (subst str_hash_loop_scan.simps) (simp add: unat_succ)
  qed
qed

lemma fold_back:
  "pos \<le> e \<Longrightarrow>
   str_hash_loop_fold to_int str pos e r
   = fold (\<lambda>c acc. to_int c XOR (33 * acc)) (rev (map str [unat pos ..< unat e])) r"
proof (induction to_int str pos e r rule: str_hash_loop_fold.induct)
  case (1 to_int str pos e r)
  show ?case
  proof (cases "pos < e")
    case True
    then have ne: "e \<noteq> 0"
      by (auto simp: word_less_nat_alt)
    then have pred: "unat (e - 1) = unat e - 1"
      by (simp add: unat_minus_one)
    from True have lt: "unat pos < unat e"
      by (simp add: word_less_nat_alt)
    with pred have le: "pos \<le> e - 1"
      by (simp add: word_le_nat_alt)
    from lt have "[unat pos ..< unat e] = [unat pos ..< unat e - 1] @ [unat e - 1]"
      by (metis less_imp_Suc_add upt_Suc_append zero_less_Suc less_Suc_eq_le Suc_diff_1)
    with True le pred "1.IH" show ?thesis
      by (subst str_hash_loop_fold.simps) simp
  next
    case False
    with "1.prems" have "e = pos"
      by simp
    then show ?thesis
      by (subst str_hash_loop_fold.simps) simp
  qed
qed

lemma hashed_units_range:
  "hashed_units str pos limit
   = map str [unat pos ..< unat pos + length (hashed_units str pos limit)]"
proof -
  let ?xs = "[unat pos ..< unat pos + unat limit]"
  let ?n = "length (hashed_units str pos limit)"
  have "?n \<le> length (map str ?xs)"
    unfolding hashed_units_def by (rule length_takeWhile_le)
  then have n: "?n \<le> unat limit"
    by simp
  have "hashed_units str pos limit = take ?n (map str ?xs)"
    unfolding hashed_units_def by (rule takeWhile_eq_take)
  also have "\<dots> = map str (take ?n ?xs)"
    by (simp add: take_map)
  also have "take ?n ?xs = [unat pos ..< unat pos + ?n]"
    using n by simp
  finally show ?thesis .
qed

text \<open>
  Claim C7. For every string and every \<open>(pos, limit)\<close> the recursive \<^verbatim>\<open>details::str_hash\<close>
  equals the iterative \<^verbatim>\<open>details::no_inline::str_hash_loop\<close>, and both are the fold of the
  specification over the code units before \<open>min (limit, first terminator)\<close>, taken in reverse
  order, in 32-bit arithmetic. The hypothesis says that the hashed code units end before index
  \<open>2 ^ 64\<close>, as they do for every string that is in memory.
\<close>

theorem hash_paths_agree:
  assumes "unat pos + length (hashed_units str pos limit) < 2 ^ 64"
  shows "str_hash to_int str pos limit = str_hash_loop to_int str pos limit
       \<and> str_hash to_int str pos limit = djb_fold to_int (hashed_units str pos limit)"
proof -
  let ?e = "str_hash_loop_scan str pos limit"
  have e: "unat ?e = unat pos + length (hashed_units str pos limit)"
    using assms by (rule scan_end)
  then have "pos \<le> ?e"
    by (simp add: word_le_nat_alt)
  then have "str_hash_loop to_int str pos limit
             = fold (\<lambda>c acc. to_int c XOR (33 * acc)) (rev (map str [unat pos ..< unat ?e])) 5381"
    unfolding str_hash_loop_def by (rule fold_back)
  also have "map str [unat pos ..< unat ?e] = hashed_units str pos limit"
    using e hashed_units_range [of str pos limit] by simp
  finally have "str_hash_loop to_int str pos limit = djb_fold to_int (hashed_units str pos limit)"
    by (simp add: djb_fold_def)
  with str_hash_is_fold [OF assms, of to_int] show ?thesis
    by simp
qed

theorem hash_paths_agree_witness:
  "unat (0 :: size_t) + length (hashed_units (c_str (lit ''abc'')) 0 (- 1)) < 2 ^ 64
   \<and> str_hash scast (c_str (lit ''abc'')) 0 (- 1) = str_hash_loop scast (c_str (lit ''abc'')) 0 (- 1)
   \<and> str_hash scast (c_str (lit ''abc'')) 0 (- 1)
       = djb_fold scast (hashed_units (c_str (lit ''abc'')) 0 (- 1))"
proof -
  have h: "unat (0 :: size_t) + length (hashed_units (c_str (lit ''abc'')) 0 (- 1)) < 2 ^ 64"
    by (simp add: hashed_units_step hashed_units_stop c_str_def lit_def)
  show ?thesis
    using h hash_paths_agree [OF h, of scast] by blast
qed

lemma hash_of_abc:
  "str_hash scast (c_str (lit ''abc'')) 0 (- 1) = 193415941
   \<and> str_hash_loop scast (c_str (lit ''abc'')) 0 (- 1) = 193415941"
  by code_simp

section \<open>Positions returned by the searches\<close>

lemma starts_with_no_search [simp]: "starts_with c s cl 0"
  by (subst starts_with.simps) simp

lemma compare_both_empty [simp]: "compare c s 0 0 = 0"
  by (subst compare.simps) simp

lemma index_of_bound:
  "unat offset + unat cl = unat n \<Longrightarrow>
   index_of c s cl sl offset = - 1 \<or> index_of c s cl sl offset < n
   \<or> (index_of c s cl sl offset = offset \<and> cl = 0 \<and> sl = 0)"
proof (induction c s cl sl offset rule: index_of.induct)
  case (1 c s cl sl offset)
  show ?case
  proof (cases "cl < sl \<or> cl = 0 \<or> starts_with c s sl sl")
    case True
    have "cl \<noteq> 0 \<Longrightarrow> offset < n"
      using "1.prems" unat_gt_0 [of cl] by (simp add: word_less_nat_alt)
    with True show ?thesis
      by (subst (1 2 3) index_of.simps) auto
  next
    case False
    then have cl: "cl \<noteq> 0" and sl: "sl \<noteq> 0"
      by auto
    from cl have pred: "unat (cl - 1) = unat cl - 1" and pos: "0 < unat cl"
      by (simp_all add: unat_minus_one unat_gt_0)
    have "unat n < 2 ^ 64"
      using unsigned_less [of n] by simp
    with "1.prems" pos have succ: "unat (offset + 1) = unat offset + 1"
      by (intro unat_succ) linarith
    with pred pos "1.prems" have "unat (offset + 1) + unat (cl - 1) = unat n"
      by simp
    with False "1.IH" have
      "index_of (ptr_add c 1) s (cl - 1) sl (offset + 1) = - 1
       \<or> index_of (ptr_add c 1) s (cl - 1) sl (offset + 1) < n
       \<or> (index_of (ptr_add c 1) s (cl - 1) sl (offset + 1) = offset + 1 \<and> cl - 1 = 0 \<and> sl = 0)"
      by simp
    with False sl show ?thesis
      by (subst (1 2 3) index_of.simps) simp
  qed
qed

lemma index_of_unit_in_empty_set [simp]: "index_of s c 0 1 0 = - 1"
  by (subst index_of.simps) simp

lemma offset_step:
  assumes "unat offset + unat cl = unat (n :: size_t)" and "cl \<noteq> 0"
  shows "unat (offset + 1) + unat (cl - 1) = unat n" and "offset < n"
proof -
  from assms(2) have pred: "unat (cl - 1) = unat cl - 1" and pos: "0 < unat cl"
    by (simp_all add: unat_minus_one unat_gt_0)
  have "unat n < 2 ^ 64"
    using unsigned_less [of n] by simp
  with assms(1) pos have "unat (offset + 1) = unat offset + 1"
    by (intro unat_succ) linarith
  with pred pos assms(1) show "unat (offset + 1) + unat (cl - 1) = unat n"
    by simp
  from assms(1) pos show "offset < n"
    by (simp add: word_less_nat_alt)
qed

lemma offset_end: "unat offset + unat (0 :: size_t) = unat (n :: size_t) \<Longrightarrow> offset = n"
  by (simp add: word_unat_eq_iff)

lemma index_of_any_bound:
  "unat offset + unat cl = unat n \<Longrightarrow>
   index_of_any c s cl sl offset = - 1 \<or> index_of_any c s cl sl offset < n"
proof (induction c s cl sl offset rule: index_of_any.induct)
  case (1 c s cl sl offset)
  show ?case
  proof (cases "cl = 0")
    case True
    then show ?thesis
      by (subst (1 2) index_of_any.simps) simp
  next
    case False
    note step = offset_step [OF "1.prems" False]
    show ?thesis
    proof (cases "sl = 0 \<or> 0 \<le>s index_of s c sl 1 0")
      case True
      with False step(2) show ?thesis
        by (subst (1 2) index_of_any.simps) auto
    next
      case stay: False
      with False step(1) "1.IH" have
        "index_of_any (ptr_add c 1) s (cl - 1) sl (offset + 1) = - 1
         \<or> index_of_any (ptr_add c 1) s (cl - 1) sl (offset + 1) < n"
        by simp
      with False stay show ?thesis
        by (subst (1 2) index_of_any.simps) simp
    qed
  qed
qed

lemma index_of_nonmatching_bound:
  "unat offset + unat cl = unat n \<Longrightarrow>
   index_of_nonmatching c s cl sl offset = - 1 \<or> index_of_nonmatching c s cl sl offset < n
   \<or> (index_of_nonmatching c s cl sl offset = offset \<and> cl = 0 \<and> sl = 0)"
proof (induction c s cl sl offset rule: index_of_nonmatching.induct)
  case (1 c s cl sl offset)
  show ?case
  proof (cases "cl = 0")
    case True
    then show ?thesis
      by (subst (1 2 3) index_of_nonmatching.simps) simp
  next
    case False
    note step = offset_step [OF "1.prems" False]
    show ?thesis
    proof (cases "index_of s c sl 1 0 <s 0")
      case True
      with False step(2) show ?thesis
        by (subst (1 2 3) index_of_nonmatching.simps) simp
    next
      case stay: False
      then have sl: "sl \<noteq> 0"
        by auto
      from False stay step(1) "1.IH" have
        "index_of_nonmatching (ptr_add c 1) s (cl - 1) sl (offset + 1) = - 1
         \<or> index_of_nonmatching (ptr_add c 1) s (cl - 1) sl (offset + 1) < n
         \<or> (index_of_nonmatching (ptr_add c 1) s (cl - 1) sl (offset + 1) = offset + 1
            \<and> cl - 1 = 0 \<and> sl = 0)"
        by simp
      with False stay sl show ?thesis
        by (subst (1 2 3) index_of_nonmatching.simps) simp
    qed
  qed
qed

lemma last_index_of_bound:
  "unat offset + unat cl = unat n \<Longrightarrow> found_pos = - 1 \<or> found_pos < n \<Longrightarrow>
   last_index_of c s cl sl offset found_pos = - 1 \<or> last_index_of c s cl sl offset found_pos < n
   \<or> (last_index_of c s cl sl offset found_pos = n \<and> sl = 0)"
proof (induction c s cl sl offset found_pos rule: last_index_of.induct)
  case (1 c s cl sl offset found_pos)
  show ?case
  proof (cases "cl < sl \<or> cl = 0")
    case True
    have "cl = 0 \<Longrightarrow> offset = n"
      using "1.prems"(1) by (simp add: offset_end)
    with True "1.prems"(2) show ?thesis
      by (subst (1 2 3) last_index_of.simps) auto
  next
    case False
    then have cl: "cl \<noteq> 0"
      by simp
    note step = offset_step [OF "1.prems"(1) cl]
    show ?thesis
    proof (cases "compare c s sl sl = 0")
      case True
      with False step "1.IH"(1) have
        "last_index_of (ptr_add c 1) s (cl - 1) sl (offset + 1) offset = - 1
         \<or> last_index_of (ptr_add c 1) s (cl - 1) sl (offset + 1) offset < n
         \<or> (last_index_of (ptr_add c 1) s (cl - 1) sl (offset + 1) offset = n \<and> sl = 0)"
        by simp
      with False True show ?thesis
        by (subst (1 2 3) last_index_of.simps) simp
    next
      case differ: False
      with False step(1) "1.prems"(2) "1.IH"(2) have
        "last_index_of (ptr_add c 1) s (cl - 1) sl (offset + 1) found_pos = - 1
         \<or> last_index_of (ptr_add c 1) s (cl - 1) sl (offset + 1) found_pos < n
         \<or> (last_index_of (ptr_add c 1) s (cl - 1) sl (offset + 1) found_pos = n \<and> sl = 0)"
        by simp
      with False differ show ?thesis
        by (subst (1 2 3) last_index_of.simps) simp
    qed
  qed
qed


lemma last_index_of_any_bound:
  "unat offset + unat cl = unat n \<Longrightarrow> found_pos = - 1 \<or> found_pos < n \<Longrightarrow>
   last_index_of_any c s cl sl offset found_pos = - 1
   \<or> last_index_of_any c s cl sl offset found_pos < n"
proof (induction c s cl sl offset found_pos rule: last_index_of_any.induct)
  case (1 c s cl sl offset found_pos)
  show ?case
  proof (cases "cl = 0")
    case True
    with "1.prems"(2) show ?thesis
      by (subst (1 2) last_index_of_any.simps) auto
  next
    case False
    note step = offset_step [OF "1.prems"(1) False]
    show ?thesis
    proof (cases "0 \<le>s index_of s c sl 1 0")
      case True
      with False step "1.IH"(1) have
        "last_index_of_any (ptr_add c 1) s (cl - 1) sl (offset + 1) offset = - 1
         \<or> last_index_of_any (ptr_add c 1) s (cl - 1) sl (offset + 1) offset < n"
        by simp
      with False True show ?thesis
        by (subst (1 2) last_index_of_any.simps) simp
    next
      case miss: False
      with False step(1) "1.prems"(2) "1.IH"(2) have
        "last_index_of_any (ptr_add c 1) s (cl - 1) sl (offset + 1) found_pos = - 1
         \<or> last_index_of_any (ptr_add c 1) s (cl - 1) sl (offset + 1) found_pos < n"
        by simp
      with False miss show ?thesis
        by (subst (1 2) last_index_of_any.simps) simp
    qed
  qed
qed

lemma last_index_of_nonmatching_bound:
  "unat offset + unat cl = unat n \<Longrightarrow> found_pos = - 1 \<or> found_pos < n \<Longrightarrow>
   last_index_of_nonmatching c s cl sl offset found_pos = - 1
   \<or> last_index_of_nonmatching c s cl sl offset found_pos < n
   \<or> (last_index_of_nonmatching c s cl sl offset found_pos = n \<and> sl = 0)"
proof (induction c s cl sl offset found_pos rule: last_index_of_nonmatching.induct)
  case (1 c s cl sl offset found_pos)
  show ?case
  proof (cases "cl = 0")
    case True
    then have "offset = n"
      using "1.prems"(1) by (simp add: offset_end)
    with True "1.prems"(2) show ?thesis
      by (subst (1 2 3) last_index_of_nonmatching.simps) auto
  next
    case False
    note step = offset_step [OF "1.prems"(1) False]
    show ?thesis
    proof (cases "index_of s c sl 1 0 <s 0")
      case True
      with False step "1.IH"(1) have
        "last_index_of_nonmatching (ptr_add c 1) s (cl - 1) sl (offset + 1) offset = - 1
         \<or> last_index_of_nonmatching (ptr_add c 1) s (cl - 1) sl (offset + 1) offset < n
         \<or> (last_index_of_nonmatching (ptr_add c 1) s (cl - 1) sl (offset + 1) offset = n
            \<and> sl = 0)"
        by simp
      with False True show ?thesis
        by (subst (1 2 3) last_index_of_nonmatching.simps) simp
    next
      case hit: False
      with False step(1) "1.prems"(2) "1.IH"(2) have
        "last_index_of_nonmatching (ptr_add c 1) s (cl - 1) sl (offset + 1) found_pos = - 1
         \<or> last_index_of_nonmatching (ptr_add c 1) s (cl - 1) sl (offset + 1) found_pos < n
         \<or> (last_index_of_nonmatching (ptr_add c 1) s (cl - 1) sl (offset + 1) found_pos = n
            \<and> sl = 0)"
        by simp
      with False hit show ?thesis
        by (subst (1 2 3) last_index_of_nonmatching.simps) simp
    qed
  qed
qed

lemma found_first_cases:
  "found_first is = npos \<or> (\<exists>i\<in>set is. found_first is = of_nat i)"
  by (cases "is") (simp_all add: found_first_def)

lemma found_last_cases:
  "found_last is = npos \<or> (\<exists>i\<in>set is. found_last is = of_nat i)"
  by (auto simp: found_last_def)

lemma index_below: "i < unat (n :: size_t) \<Longrightarrow> (of_nat i :: size_t) < n"
proof -
  assume less: "i < unat n"
  have "unat n < 2 ^ 64"
    using unsigned_less [of n] by simp
  with less have "unat (of_nat i :: size_t) = i"
    by (simp add: unat_of_nat)
  with less show ?thesis
    by (simp add: word_less_nat_alt)
qed

lemma index_at_most:
  "i \<le> unat (n :: size_t) \<Longrightarrow> (of_nat i :: size_t) < n \<or> (of_nat i = n \<and> i = unat n)"
  using index_below [of i n] by (cases "i = unat n") auto

lemma std_string_length [simp]: "length (std_string p n) = unat n"
  by (simp add: std_string_def)

lemma std_find_bound:
  assumes "length xs = unat sz" and "length ys = unat n"
  shows "std_find xs ys pos = npos \<or> std_find xs ys pos < sz
       \<or> (n = 0 \<and> std_find xs ys pos = sz)"
proof -
  let ?is = "filter (\<lambda>i. unat pos \<le> i \<and> match_at xs ys i) [0 ..< Suc (length xs)]"
  from found_first_cases [of ?is] show ?thesis
  proof
    assume "found_first ?is = npos"
    then show ?thesis
      by (simp add: std_find_def)
  next
    assume "\<exists>i\<in>set ?is. found_first ?is = of_nat i"
    then obtain i where "i \<in> set ?is" and "found_first ?is = of_nat i"
      by blast
    then have r: "std_find xs ys pos = of_nat i" and m: "match_at xs ys i"
      by (simp_all add: std_find_def del: upt_Suc)
    from m assms have "i + unat n \<le> unat sz"
      by (simp add: match_at_def)
    then have "i \<le> unat sz" and "n \<noteq> 0 \<Longrightarrow> i < unat sz"
      using unat_gt_0 [of n] by simp_all
    with index_at_most [of i sz] index_below [of i sz] r show ?thesis
      by (cases "n = 0") auto
  qed
qed

lemma std_find_empty_needle: "std_find xs [] 0 = 0"
  by (simp add: std_find_def found_first_def match_at_def upt_conv_Cons del: upt_Suc)

lemma std_rfind_bound:
  assumes "length xs = unat sz" and "length ys = unat n"
  shows "std_rfind xs ys pos = npos \<or> std_rfind xs ys pos < sz
       \<or> (n = 0 \<and> std_rfind xs ys pos = sz)"
proof -
  let ?is = "filter (\<lambda>i. i \<le> unat pos \<and> match_at xs ys i) [0 ..< Suc (length xs)]"
  from found_last_cases [of ?is] show ?thesis
  proof
    assume "found_last ?is = npos"
    then show ?thesis
      by (simp add: std_rfind_def)
  next
    assume "\<exists>i\<in>set ?is. found_last ?is = of_nat i"
    then obtain i where "i \<in> set ?is" and "found_last ?is = of_nat i"
      by blast
    then have r: "std_rfind xs ys pos = of_nat i" and m: "match_at xs ys i"
      by (simp_all add: std_rfind_def del: upt_Suc)
    from m assms have "i + unat n \<le> unat sz"
      by (simp add: match_at_def)
    then have "i \<le> unat sz" and "n \<noteq> 0 \<Longrightarrow> i < unat sz"
      using unat_gt_0 [of n] by simp_all
    with index_at_most [of i sz] index_below [of i sz] r show ?thesis
      by (cases "n = 0") auto
  qed
qed

lemma found_first_below:
  assumes "length xs = unat sz"
  shows "found_first (filter P [0 ..< length xs]) = npos
       \<or> found_first (filter P [0 ..< length xs]) < sz"
  using found_first_cases [of "filter P [0 ..< length xs]"] assms
  by (auto intro: index_below)

lemma found_last_below:
  assumes "length xs = unat sz"
  shows "found_last (filter P [0 ..< length xs]) = npos
       \<or> found_last (filter P [0 ..< length xs]) < sz"
  using found_last_cases [of "filter P [0 ..< length xs]"] assms
  by (auto intro: index_below)

lemma std_search_examples:
  "std_find (lit ''abcabc'') (lit ''bc'') 0 = 1"
  "std_rfind (lit ''abcabc'') (lit ''bc'') npos = 4"
  "std_rfind (lit ''abcabc'') (lit ''bc'') 0 = npos"
  "std_rfind (lit ''abc'') [] npos = 3"
  "std_find_first_of (lit ''abcabc'') (lit ''cb'') 0 = 1"
  "std_find_first_not_of (lit ''abcabc'') (lit ''ab'') 0 = 2"
  "std_find_last_of (lit ''abcabc'') (lit ''ab'') npos = 4"
  "std_find_last_not_of (lit ''abcabc'') (lit ''bc'') npos = 3"
  "std_find_last_not_of (lit ''abc'') [] npos = 2"
  by (simp_all add: std_find_def std_rfind_def std_find_first_of_def std_find_first_not_of_def
      std_find_last_of_def std_find_last_not_of_def found_first_def found_last_def match_at_def
      lit_def npos_def unat_all_ones upt_rec)

text \<open>The six methods at concrete arguments, under the recursive policy: a needle or a set that
  is present, then the empty argument on a non-empty and on an empty view.\<close>

lemma view_search_examples_recursive:
  "view_find RecursivePolicyEnabled (cv (lit ''abcabc''))
     (ArgBuf (c_str (lit ''bc'')) 2) = Some 1"
  "view_rfind RecursivePolicyEnabled (cv (lit ''abcabc''))
     (ArgView (cv (lit ''bc''))) = Some 4"
  "view_find_first_of RecursivePolicyEnabled (cv (lit ''abcabc''))
     (ArgBuf (c_str (lit ''cb'')) 2) = Some 1"
  "view_find_first_not_of RecursivePolicyEnabled (cv (lit ''abcabc''))
     (ArgBuf (c_str (lit ''ab'')) 2) = Some 2"
  "view_find_last_of RecursivePolicyEnabled (cv (lit ''abcabc''))
     (ArgBuf (c_str (lit ''ab'')) 2) = Some 4"
  "view_find_last_not_of RecursivePolicyEnabled (cv (lit ''abcabc''))
     (ArgString (c_str (lit ''bc'')) 2) = Some 3"
  "view_find RecursivePolicyEnabled (cv (lit ''abc''))
     (ArgBuf (c_str (lit '''')) 0) = Some 0"
  "view_find_first_not_of RecursivePolicyEnabled (cv (lit ''abc''))
     (ArgBuf (c_str (lit '''')) 0) = Some 0"
  "view_rfind RecursivePolicyEnabled (cv (lit ''abc''))
     (ArgBuf (c_str (lit '''')) 0) = Some 3"
  "view_find_last_not_of RecursivePolicyEnabled (cv (lit ''abc''))
     (ArgBuf (c_str (lit '''')) 0) = Some 3"
  "view_find RecursivePolicyEnabled (cv (lit ''''))
     (ArgBuf (c_str (lit '''')) 0) = Some 0"
  "view_find_first_not_of RecursivePolicyEnabled (cv (lit ''''))
     (ArgBuf (c_str (lit '''')) 0) = Some 0"
  "view_find_last_not_of RecursivePolicyEnabled (cv (lit ''''))
     (ArgBuf (c_str (lit '''')) 0) = Some 0"
  by code_simp+

text \<open>The same under the iterative policy, for the searches that start at position 0.\<close>

lemma view_search_examples_iterative:
  "view_find RecursivePolicyDisabled (cv (lit ''abcabc''))
     (ArgBuf (c_str (lit ''bc'')) 2) = Some 1"
  "view_rfind RecursivePolicyDisabled (cv (lit ''abcabc''))
     (ArgView (cv (lit ''bc''))) = Some npos"
  "view_find_first_of RecursivePolicyDisabled (cv (lit ''abcabc''))
     (ArgBuf (c_str (lit ''cb'')) 2) = Some 1"
  "view_find_first_not_of RecursivePolicyDisabled (cv (lit ''abcabc''))
     (ArgBuf (c_str (lit ''ab'')) 2) = Some 2"
  "view_find RecursivePolicyDisabled (cv (lit ''abc''))
     (ArgBuf (c_str (lit '''')) 0) = Some 0"
  "view_find_first_not_of RecursivePolicyDisabled (cv (lit ''abc''))
     (ArgBuf (c_str (lit '''')) 0) = Some 0"
  "view_rfind RecursivePolicyDisabled (cv (lit ''abc''))
     (ArgBuf (c_str (lit '''')) 0) = Some 0"
  "view_find RecursivePolicyDisabled (cv (lit ''''))
     (ArgBuf (c_str (lit '''')) 0) = Some 0"
  "view_find_first_not_of RecursivePolicyDisabled (cv (lit ''''))
     (ArgBuf (c_str (lit '''')) 0) = Some npos"
  by code_simp+

text \<open>And for the searches that start at \<open>npos\<close>. With an empty set on \<^verbatim>\<open>"abc"\<close>,
  \<^verbatim>\<open>find_last_not_of\<close> is 2 here and 3 under the recursive policy.\<close>

lemma std_string_examples:
  "std_string (m_str (cv (lit ''abcabc''))) (m_size (cv (lit ''abcabc''))) = lit ''abcabc''"
  "std_string (m_str (cv (lit ''abc''))) (m_size (cv (lit ''abc''))) = lit ''abc''"
  "std_string (c_str (lit ''ab'')) 2 = lit ''ab''"
  "std_string (c_str (lit ''bc'')) 2 = lit ''bc''"
  "std_string (c_str (lit '''')) 0 = []"
  by code_simp+

lemma view_search_examples_iterative_from_end:
  "view_rfind RecursivePolicyDisabled (cv (lit ''abcabc''))
     (ArgString (c_str (lit ''bc'')) 2) = Some 4"
  "view_rfind RecursivePolicyDisabled (cv (lit ''abc''))
     (ArgString (c_str (lit '''')) 0) = Some 3"
  "view_find_last_of RecursivePolicyDisabled (cv (lit ''abcabc''))
     (ArgBuf (c_str (lit ''ab'')) 2) = Some 4"
  "view_find_last_not_of RecursivePolicyDisabled (cv (lit ''abcabc''))
     (ArgString (c_str (lit ''bc'')) 2) = Some 3"
  "view_find_last_not_of RecursivePolicyDisabled (cv (lit ''abc''))
     (ArgBuf (c_str (lit '''')) 0) = Some 2"
  by (simp_all add: view_rfind_def view_find_last_of_def view_find_last_not_of_def arg_buffer_def
      last_pos_def std_string_examples std_search_examples)

text \<open>
  Claim C9 says that every result of \<^verbatim>\<open>find\<close>, \<^verbatim>\<open>rfind\<close>, \<^verbatim>\<open>find_first_of\<close>,
  \<^verbatim>\<open>find_first_not_of\<close>, \<^verbatim>\<open>find_last_of\<close> and \<^verbatim>\<open>find_last_not_of\<close> is \<open>npos\<close> or strictly
  below the size of the view. As stated it fails: the empty needle is found by \<^verbatim>\<open>rfind\<close> at
  the size itself, here 3 for \<^verbatim>\<open>"abc"\<close>.
\<close>

theorem rfind_empty_needle_at_size:
  "rfind_cn (cv (lit ''abc'')) (c_str []) 0 = 3
   \<and> m_size (cv (lit ''abc'')) = 3
   \<and> \<not> position_in (rfind_cn (cv (lit ''abc'')) (c_str []) 0) (m_size (cv (lit ''abc'')))"
  by code_simp

text \<open>
  Claim C9, amended. For every view, both recursive policies and every search argument whose
  length scan returns, each of the six searches returns a position, and the position is
  \<open>npos\<close> or strictly below the size of the view, but for an empty search argument, where by
  design the match is at an end of the view: \<^verbatim>\<open>rfind\<close> of an empty needle may return the size,
  and on an empty view \<^verbatim>\<open>find\<close>, \<^verbatim>\<open>find_first_not_of\<close> and \<^verbatim>\<open>find_last_not_of\<close> return 0.
  Nothing is said of \<^verbatim>\<open>find_last_not_of\<close> with an empty set on a non-empty view under
  \<^verbatim>\<open>RecursivePolicyEnabled\<close>.
\<close>

theorem search_positions_bounded:
  fixes v :: "'c::{zero,linorder} basic_char_view"
  assumes "arg_buffer arg = Some (a_str, a_len)"
  shows "(\<exists>r. view_find rp v arg = Some r
            \<and> (position_in r (m_size v) \<or> m_size v = 0 \<and> a_len = 0 \<and> r = 0))
       \<and> (\<exists>r. view_rfind rp v arg = Some r
            \<and> (position_in r (m_size v) \<or> a_len = 0 \<and> r = m_size v))
       \<and> (\<exists>r. view_find_first_of rp v arg = Some r \<and> position_in r (m_size v))
       \<and> (\<exists>r. view_find_first_not_of rp v arg = Some r
            \<and> (position_in r (m_size v) \<or> m_size v = 0 \<and> a_len = 0 \<and> r = 0))
       \<and> (\<exists>r. view_find_last_of rp v arg = Some r \<and> position_in r (m_size v))
       \<and> (\<exists>r. view_find_last_not_of rp v arg = Some r
            \<and> (rp = RecursivePolicyDisabled \<or> a_len \<noteq> 0 \<or> m_size v = 0 \<longrightarrow>
                 position_in r (m_size v) \<or> m_size v = 0 \<and> a_len = 0 \<and> r = 0))"
proof (cases rp)
  case RecursivePolicyEnabled
  have start: "unat (0 :: size_t) + unat (m_size v) = unat (m_size v)"
    by simp
  have none: "(- 1 :: ssize_t) = - 1 \<or> (- 1 :: ssize_t) < m_size v"
    by simp
  note b1 = index_of_bound [OF start, of "m_str v" a_str a_len]
    and b2 = last_index_of_bound [OF start none, of "m_str v" a_str a_len]
    and b3 = index_of_any_bound [OF start, of "m_str v" a_str a_len]
    and b4 = index_of_nonmatching_bound [OF start, of "m_str v" a_str a_len]
    and b5 = last_index_of_any_bound [OF start none, of "m_str v" a_str a_len]
    and b6 = last_index_of_nonmatching_bound [OF start none, of "m_str v" a_str a_len]
  have "view_find rp v arg = Some (find_cn v a_str a_len)"
    and "position_in (find_cn v a_str a_len) (m_size v)
         \<or> m_size v = 0 \<and> a_len = 0 \<and> find_cn v a_str a_len = 0"
    using b1 by (auto simp: view_find_def assms RecursivePolicyEnabled position_in_def
        find_cn_def npos_def)
  moreover have "view_rfind rp v arg = Some (rfind_cn v a_str a_len)"
    and "position_in (rfind_cn v a_str a_len) (m_size v)
         \<or> a_len = 0 \<and> rfind_cn v a_str a_len = m_size v"
    using b2 by (auto simp: view_rfind_def assms RecursivePolicyEnabled position_in_def
        rfind_cn_def npos_def)
  moreover have "view_find_first_of rp v arg = Some (find_first_of_cn v a_str a_len)"
    and "position_in (find_first_of_cn v a_str a_len) (m_size v)"
    using b3 by (auto simp: view_find_first_of_def assms RecursivePolicyEnabled position_in_def
        find_first_of_cn_def npos_def)
  moreover have "view_find_first_not_of rp v arg = Some (find_first_not_of_cn v a_str a_len)"
    and "position_in (find_first_not_of_cn v a_str a_len) (m_size v)
         \<or> m_size v = 0 \<and> a_len = 0 \<and> find_first_not_of_cn v a_str a_len = 0"
    using b4 by (auto simp: view_find_first_not_of_def assms RecursivePolicyEnabled
        position_in_def find_first_not_of_cn_def npos_def)
  moreover have "view_find_last_of rp v arg = Some (find_last_of_cn v a_str a_len)"
    and "position_in (find_last_of_cn v a_str a_len) (m_size v)"
    using b5 by (auto simp: view_find_last_of_def assms RecursivePolicyEnabled position_in_def
        find_last_of_cn_def npos_def)
  moreover have "view_find_last_not_of rp v arg = Some (find_last_not_of_cn v a_str a_len)"
    and "a_len \<noteq> 0 \<or> m_size v = 0 \<Longrightarrow>
         position_in (find_last_not_of_cn v a_str a_len) (m_size v)
         \<or> m_size v = 0 \<and> a_len = 0 \<and> find_last_not_of_cn v a_str a_len = 0"
    using b6 by (auto simp: view_find_last_not_of_def assms RecursivePolicyEnabled
        position_in_def find_last_not_of_cn_def npos_def)
  ultimately show ?thesis
    using RecursivePolicyEnabled by simp
next
  case RecursivePolicyDisabled
  let ?xs = "std_string (m_str v) (m_size v)" and ?ys = "std_string a_str a_len"
  have xs: "length ?xs = unat (m_size v)" and ys: "length ?ys = unat a_len"
    by simp_all
  have "view_find rp v arg = Some (std_find ?xs ?ys 0)"
    by (simp add: view_find_def assms RecursivePolicyDisabled)
  moreover have "position_in (std_find ?xs ?ys 0) (m_size v)
         \<or> m_size v = 0 \<and> a_len = 0 \<and> std_find ?xs ?ys 0 = 0"
  proof (cases "a_len = 0")
    case True
    then have "?ys = []"
      by (simp add: std_string_def)
    then have "std_find ?xs ?ys 0 = 0"
      by (simp only: std_find_empty_needle)
    with True show ?thesis
      by (cases "m_size v = 0") (simp_all add: position_in_def word_greater_zero_iff)
  next
    case False
    with std_find_bound [OF xs ys, of 0] show ?thesis
      by (simp add: position_in_def)
  qed
  moreover have "view_rfind rp v arg = Some (std_rfind ?xs ?ys (last_pos arg))"
    by (simp add: view_rfind_def assms RecursivePolicyDisabled)
  moreover have "position_in (std_rfind ?xs ?ys (last_pos arg)) (m_size v)
         \<or> a_len = 0 \<and> std_rfind ?xs ?ys (last_pos arg) = m_size v"
    using std_rfind_bound [OF xs ys, of "last_pos arg"] by (auto simp: position_in_def)
  moreover have "view_find_first_of rp v arg = Some (std_find_first_of ?xs ?ys 0)"
    by (simp add: view_find_first_of_def assms RecursivePolicyDisabled)
  moreover have "position_in (std_find_first_of ?xs ?ys 0) (m_size v)"
    unfolding position_in_def std_find_first_of_def by (rule found_first_below [OF xs])
  moreover have "view_find_first_not_of rp v arg = Some (std_find_first_not_of ?xs ?ys 0)"
    by (simp add: view_find_first_not_of_def assms RecursivePolicyDisabled)
  moreover have "position_in (std_find_first_not_of ?xs ?ys 0) (m_size v)"
    unfolding position_in_def std_find_first_not_of_def by (rule found_first_below [OF xs])
  moreover have "view_find_last_of rp v arg = Some (std_find_last_of ?xs ?ys npos)"
    by (simp add: view_find_last_of_def assms RecursivePolicyDisabled)
  moreover have "position_in (std_find_last_of ?xs ?ys npos) (m_size v)"
    unfolding position_in_def std_find_last_of_def by (rule found_last_below [OF xs])
  moreover have "view_find_last_not_of rp v arg = Some (std_find_last_not_of ?xs ?ys npos)"
    by (simp add: view_find_last_not_of_def assms RecursivePolicyDisabled)
  moreover have "position_in (std_find_last_not_of ?xs ?ys npos) (m_size v)"
    unfolding position_in_def std_find_last_not_of_def by (rule found_last_below [OF xs])
  ultimately show ?thesis
    by simp
qed

theorem search_positions_bounded_witness:
  "arg_buffer (ArgZ (c_str (lit ''bc''))) = Some (c_str (lit ''bc''), 2)
   \<and> (\<exists>r. view_find RecursivePolicyEnabled (cv (lit ''abcabc'')) (ArgZ (c_str (lit ''bc''))) = Some r
        \<and> (position_in r (m_size (cv (lit ''abcabc'')))
           \<or> m_size (cv (lit ''abcabc'')) = 0 \<and> (2 :: size_t) = 0 \<and> r = 0))
   \<and> (\<exists>r. view_rfind RecursivePolicyEnabled (cv (lit ''abcabc'')) (ArgZ (c_str (lit ''bc''))) = Some r
        \<and> (position_in r (m_size (cv (lit ''abcabc'')))
           \<or> (2 :: size_t) = 0 \<and> r = m_size (cv (lit ''abcabc''))))
   \<and> (\<exists>r. view_find_last_not_of RecursivePolicyEnabled (cv (lit ''abcabc''))
              (ArgZ (c_str (lit ''bc''))) = Some r
        \<and> (position_in r (m_size (cv (lit ''abcabc'')))
           \<or> m_size (cv (lit ''abcabc'')) = 0 \<and> (2 :: size_t) = 0 \<and> r = 0))"
proof -
  have h: "arg_buffer (ArgZ (c_str (lit ''bc''))) = Some (c_str (lit ''bc''), 2)"
    by (simp add: arg_buffer_def length_z.simps c_str_def lit_def ptr_add_def)
  have n: "(2 :: size_t) \<noteq> 0"
    by simp
  from search_positions_bounded [OF h, of RecursivePolicyEnabled "cv (lit ''abcabc'')"] h n
  show ?thesis
    by blast
qed

section \<open>Trimming\<close>

lemma content_of_length [simp]: "length (content_of v) = unat (m_size v)"
  by (simp add: content_of_def)

lemma content_of_sub:
  assumes "i + k \<le> unat (m_size v)"
  shows "content_of \<lparr>m_str = ptr_add (m_str v) i, m_size = of_nat k\<rparr> = take k (drop i (content_of v))"
proof -
  have "unat (m_size v) < 2 ^ 64"
    using unsigned_less [of "m_size v"] by simp
  with assms have "unat (of_nat k :: size_t) = k"
    by (simp add: unat_of_nat)
  moreover have "[i..<i + k] = map (\<lambda>x. i + x) [0..<k]"
    by (induction k) simp_all
  then have "map (\<lambda>x. m_str v (i + x)) [0..<k] = map (m_str v) [i..<i + k]"
    by (simp add: comp_def)
  moreover have "take k (drop i [0..<unat (m_size v)]) = [i..<i + k]"
    using assms by simp
  ultimately show ?thesis
    by (simp add: content_of_def ptr_add_def take_map drop_map)
qed


lemma run_is_short: "\<exists>c\<in>set cs. \<not> P c \<Longrightarrow> length (takeWhile P cs) < length cs"
  by (induction cs) auto

lemma strip_bounds:
  assumes "\<exists>c\<in>set cs. \<not> P c"
  defines "i \<equiv> length (takeWhile P cs)" and "k \<equiv> length (takeWhile P (rev cs))"
  shows "i + k < length cs" and "\<not> P (cs ! i)" and "\<not> P (cs ! (length cs - 1 - k))"
proof -
  from assms(1) have i: "i < length cs"
    unfolding i_def by (rule run_is_short)
  then show first: "\<not> P (cs ! i)"
    unfolding i_def by (rule nth_length_takeWhile)
  from assms(1) have "\<exists>c\<in>set (rev cs). \<not> P c"
    by simp
  then have "k < length (rev cs)"
    unfolding k_def by (rule run_is_short)
  then have k: "k < length cs" and "\<not> P (rev cs ! k)"
    unfolding k_def by (simp_all add: nth_length_takeWhile)
  then show last: "\<not> P (cs ! (length cs - 1 - k))"
    by (simp add: rev_nth)
  show "i + k < length cs"
  proof (rule ccontr)
    assume "\<not> i + k < length cs"
    with k have m: "length cs - 1 - k < length (takeWhile P cs)"
      unfolding i_def by linarith
    then have "takeWhile P cs ! (length cs - 1 - k) = cs ! (length cs - 1 - k)"
      by (rule takeWhile_nth)
    moreover from m have "takeWhile P cs ! (length cs - 1 - k) \<in> set (takeWhile P cs)"
      by (rule nth_mem)
    ultimately have "P (cs ! (length cs - 1 - k))"
      by (auto dest: set_takeWhileD)
    with last show False
      by simp
  qed
qed

lemma drop_is_trailing_run:
  "drop (length cs - length (takeWhile P (rev cs))) cs = rev (takeWhile P (rev cs))"
proof -
  have "takeWhile P (rev cs) = take (length (takeWhile P (rev cs))) (rev cs)"
    by (rule takeWhile_eq_take)
  then have "rev (takeWhile P (rev cs)) = rev (take (length (takeWhile P (rev cs))) (rev cs))"
    by simp
  then show ?thesis
    by (simp add: rev_take)
qed

lemma trim_cuts_whitespace:
  fixes v :: "'c basic_char_view"
  shows "\<exists>i pre post.
           m_str (trim ws v) = ptr_add (m_str v) i
         \<and> i + unat (m_size (trim ws v)) \<le> unat (m_size v)
         \<and> content_of v = pre @ content_of (trim ws v) @ post
         \<and> length pre = i
         \<and> set pre \<subseteq> ws \<and> set post \<subseteq> ws
         \<and> (content_of (trim ws v) = []
            \<or> hd (content_of (trim ws v)) \<notin> ws \<and> last (content_of (trim ws v)) \<notin> ws)"
proof -
  define cs where "cs = content_of v"
  define P where "P = (\<lambda>c. c \<in> ws)"
  define i where "i = length (takeWhile P cs)"
  define k where "k = length (takeWhile P (rev cs))"
  define j where "j = length cs - k"
  have n: "length cs = unat (m_size v)"
    by (simp add: cs_def)
  have tr: "trim ws v = (if j \<le> i then \<lparr>m_str = m_str v, m_size = 0\<rparr>
                         else \<lparr>m_str = ptr_add (m_str v) i, m_size = of_nat (j - i)\<rparr>)"
    by (simp add: trim_def first_not_in_def last_not_in_end_def Let_def cs_def P_def i_def k_def j_def)
  show ?thesis
  proof (cases "\<exists>c\<in>set cs. \<not> P c")
    case False
    then have a: "takeWhile P cs = cs" and b: "takeWhile P (rev cs) = rev cs"
      by simp_all
    have "i = length cs" and "j = 0"
      by (simp_all add: i_def j_def k_def a b)
    with tr have t: "trim ws v = \<lparr>m_str = m_str v, m_size = 0\<rparr>"
      by simp
    have "m_str (trim ws v) = ptr_add (m_str v) 0"
      by (simp add: t ptr_add_def)
    moreover have "content_of (trim ws v) = []"
      by (simp add: t content_of_def)
    moreover from False have "set cs \<subseteq> ws"
      by (auto simp: P_def)
    ultimately show ?thesis
      using t by (intro exI [of _ 0] exI [of _ "[]"] exI [of _ cs]) (simp add: cs_def)
  next
    case True
    note sb = strip_bounds [OF True, folded i_def k_def]
    from sb(1) have ij: "i < j" and jn: "j \<le> length cs"
      by (simp_all add: j_def)
    with tr have t: "trim ws v = \<lparr>m_str = ptr_add (m_str v) i, m_size = of_nat (j - i)\<rparr>"
      by simp
    from ij jn n have fit: "i + (j - i) \<le> unat (m_size v)"
      by simp
    have body: "content_of (trim ws v) = take (j - i) (drop i cs)"
      unfolding t cs_def by (rule content_of_sub [OF fit])
    have len: "length (content_of (trim ws v)) = j - i"
      using ij jn by (simp add: body)
    then have sz: "unat (m_size (trim ws v)) = j - i"
      by simp
    have "cs = take i cs @ drop i cs"
      by simp
    also have "drop i cs = take (j - i) (drop i cs) @ drop (j - i) (drop i cs)"
      by (simp only: append_take_drop_id)
    also have "drop (j - i) (drop i cs) = drop j cs"
      using ij by simp
    finally have split: "content_of v = take i cs @ content_of (trim ws v) @ drop j cs"
      by (simp add: body cs_def [symmetric])
    have "take i cs = takeWhile P cs"
      unfolding i_def by (rule takeWhile_eq_take [symmetric])
    then have pre: "set (take i cs) \<subseteq> ws"
      by (auto simp: P_def dest: set_takeWhileD)
    have "drop j cs = rev (takeWhile P (rev cs))"
      unfolding j_def k_def by (rule drop_is_trailing_run)
    then have post: "set (drop j cs) \<subseteq> ws"
      by (auto simp: P_def dest: set_takeWhileD)
    from ij jn have "hd (take (j - i) (drop i cs)) = cs ! i"
      by (simp add: hd_conv_nth)
    with sb(2) have h: "hd (content_of (trim ws v)) \<notin> ws"
      by (simp add: body P_def)
    from ij jn have "last (take (j - i) (drop i cs)) = cs ! (j - 1)"
      by (simp add: last_conv_nth)
    moreover have "j - 1 = length cs - 1 - k"
      by (simp add: j_def)
    ultimately have l: "last (content_of (trim ws v)) \<notin> ws"
      using sb(3) by (simp add: body P_def)
    have "length (take i cs) = i"
      using ij jn by simp
    with split pre post h l fit sz show ?thesis
      by (intro exI [of _ i] exI [of _ "take i cs"] exI [of _ "drop j cs"]) (simp add: t)
  qed
qed

text \<open>
  Claim C6. \<^verbatim>\<open>trim\<close> returns a sub-view of the same backing store: the code units cut off
  before and after it are all whitespace, and the result is empty or begins and ends with a
  code unit that is not whitespace; so an empty or all-whitespace view gives a view of
  length 0. In particular \<^verbatim>\<open>"  \t test1  \t ".trim()\<close> is \<^verbatim>\<open>"test1"\<close>, of length 5, for every
  whitespace set \<open>sp\<close> of \<^verbatim>\<open>char\<close> code units that holds space and tab and neither \<^verbatim>\<open>'t'\<close> nor
  \<^verbatim>\<open>'1'\<close>.
\<close>

theorem trim_strips_whitespace:
  fixes v :: "'c basic_char_view" and ws :: "'c set" and sp :: "8 word set"
  shows "(\<exists>i pre post.
            m_str (trim ws v) = ptr_add (m_str v) i
          \<and> i + unat (m_size (trim ws v)) \<le> unat (m_size v)
          \<and> content_of v = pre @ content_of (trim ws v) @ post
          \<and> length pre = i
          \<and> set pre \<subseteq> ws \<and> set post \<subseteq> ws
          \<and> (content_of (trim ws v) = []
             \<or> hd (content_of (trim ws v)) \<notin> ws \<and> last (content_of (trim ws v)) \<notin> ws))
       \<and> (set (content_of v) \<subseteq> ws \<longrightarrow> m_size (trim ws v) = 0)
       \<and> (32 \<in> sp \<and> 9 \<in> sp \<and> 116 \<notin> sp \<and> 49 \<notin> sp \<longrightarrow>
            content_of (trim sp (cv padded_test1)) = lit ''test1''
          \<and> m_size (trim sp (cv padded_test1)) = 5)"
proof (intro conjI impI)
  show "\<exists>i pre post.
          m_str (trim ws v) = ptr_add (m_str v) i
        \<and> i + unat (m_size (trim ws v)) \<le> unat (m_size v)
        \<and> content_of v = pre @ content_of (trim ws v) @ post
        \<and> length pre = i
        \<and> set pre \<subseteq> ws \<and> set post \<subseteq> ws
        \<and> (content_of (trim ws v) = []
           \<or> hd (content_of (trim ws v)) \<notin> ws \<and> last (content_of (trim ws v)) \<notin> ws)"
    by (rule trim_cuts_whitespace)
next
  assume all: "set (content_of v) \<subseteq> ws"
  then have a: "takeWhile (\<lambda>c. c \<in> ws) (content_of v) = content_of v"
    and b: "takeWhile (\<lambda>c. c \<in> ws) (rev (content_of v)) = rev (content_of v)"
    by auto
  show "m_size (trim ws v) = 0"
    by (simp add: trim_def first_not_in_def last_not_in_end_def Let_def a b)
next
  assume sp: "32 \<in> sp \<and> 9 \<in> sp \<and> 116 \<notin> sp \<and> 49 \<notin> sp"
  have size: "m_size (cv padded_test1) = 13"
    by (simp add: cv_def char_view_n_def padded_test1_def lit_def)
  have cs: "content_of (cv padded_test1) = padded_test1"
    by (simp add: content_of_def cv_def char_view_n_def padded_test1_def lit_def c_str_def
        upt_rec)
  have i: "first_not_in sp padded_test1 = 4"
    using sp by (simp add: first_not_in_def padded_test1_def lit_def)
  have j: "last_not_in_end sp padded_test1 = 9"
    using sp by (simp add: last_not_in_end_def padded_test1_def lit_def)
  have t: "trim sp (cv padded_test1) = \<lparr>m_str = ptr_add (m_str (cv padded_test1)) 4, m_size = 5\<rparr>"
    by (simp add: trim_def cs i j)
  show "m_size (trim sp (cv padded_test1)) = 5"
    by (simp add: t)
  have "content_of (trim sp (cv padded_test1)) = take 5 (drop 4 (content_of (cv padded_test1)))"
    unfolding t using content_of_sub [of 4 5 "cv padded_test1"] by (simp add: size)
  then have "content_of (trim sp (cv padded_test1)) = take 5 (drop 4 padded_test1)"
    by (simp only: cs)
  then show "content_of (trim sp (cv padded_test1)) = lit ''test1''"
    by (simp add: padded_test1_def lit_def)
qed

theorem trim_strips_whitespace_witness:
  "set (content_of (cv [32, 9, 32 :: 8 word])) \<subseteq> {9, 32}
   \<and> m_size (trim {9, 32} (cv [32, 9, 32 :: 8 word])) = 0
   \<and> (32 :: 8 word) \<in> {9, 32} \<and> (9 :: 8 word) \<in> {9, 32}
   \<and> (116 :: 8 word) \<notin> {9, 32} \<and> (49 :: 8 word) \<notin> {9, 32}
   \<and> content_of (trim {9, 32} (cv padded_test1)) = lit ''test1''
   \<and> m_size (trim {9, 32} (cv padded_test1)) = 5"
proof -
  have sub: "set (content_of (cv [32, 9, 32 :: 8 word])) \<subseteq> {9, 32}"
    by (simp add: content_of_def cv_def char_view_n_def c_str_def upt_rec)
  have sp: "(32 :: 8 word) \<in> {9, 32} \<and> (9 :: 8 word) \<in> {9, 32}
            \<and> (116 :: 8 word) \<notin> {9, 32} \<and> (49 :: 8 word) \<notin> {9, 32}"
    by simp
  from trim_strips_whitespace [of "{9, 32}" "cv [32, 9, 32 :: 8 word]" "{9, 32}"] sub sp
  show ?thesis
    by blast
qed

section \<open>Where the code departs from the specification, and where it keeps it\<close>

text \<open>
  Claim C1. The recursive and the iterative implementation of an operation return the same
  result; in particular \<^verbatim>\<open>starts_with(pointer, length)\<close> under \<^verbatim>\<open>RecursivePolicyEnabled\<close> and
  under \<^verbatim>\<open>RecursivePolicyDisabled\<close>. The code does not: the iterative overload compares the
  first \<open>min a_len m_size\<close> code units of the needle with the whole view, so for the view
  \<^verbatim>\<open>"Abcdefg"\<close> and the needle \<^verbatim>\<open>("Abcd", 4)\<close> it answers false where the recursive one answers
  true.
\<close>

theorem starts_with_policies_differ:
  "view_starts_with RecursivePolicyEnabled (cv (lit ''Abcdefg'')) (c_str (lit ''Abcd'')) 4 = True
   \<and> view_starts_with RecursivePolicyDisabled (cv (lit ''Abcdefg'')) (c_str (lit ''Abcd'')) 4
       = False"
  by (simp add: view_starts_with_def std_string_def starts_with.simps upt_rec
      cv_def lit_def char_view_n_def c_str_def ptr_add_def)

lemma starts_with_self: "s = c \<Longrightarrow> sl = cl \<Longrightarrow> starts_with c s cl sl"
proof (induction c s cl sl rule: starts_with.induct)
  case (1 c s cl sl)
  show ?case
  proof (cases "sl = 0 \<or> c 0 = 0")
    case True
    with "1.prems" show ?thesis
      by (subst starts_with.simps) auto
  next
    case False
    with "1.prems" "1.IH" have "starts_with (ptr_add c 1) (ptr_add s 1) (cl - 1) (sl - 1)"
      by simp
    with False "1.prems" show ?thesis
      by (subst starts_with.simps) simp
  qed
qed

text \<open>
  A view starts with itself under both policies, and with the empty buffer under the
  recursive one.
\<close>

theorem starts_with_identity:
  fixes v :: "'c::zero basic_char_view"
  shows "view_starts_with RecursivePolicyEnabled v (m_str v) (m_size v)
       \<and> view_starts_with RecursivePolicyDisabled v (m_str v) (m_size v)
       \<and> view_starts_with RecursivePolicyEnabled v a_str 0"
  by (simp add: view_starts_with_def starts_with_self)

text \<open>
  Claim C2. \<^verbatim>\<open>substr(start)\<close> with the length omitted returns the remaining \<open>size - start\<close>
  code units. The code does not for \<open>start \<ge> 1\<close>: the omitted length is \<open>npos\<close>, the sum
  \<^verbatim>\<open>index + len\<close> wraps around to \<open>index - 1\<close>, the test \<^verbatim>\<open>index + len <= m_size\<close> succeeds, and
  the view is built with the length \<open>npos\<close>. For \<^verbatim>\<open>"Abcdefg".substr(1)\<close> the size of the result
  is \<open>npos\<close>, not 6.
\<close>

theorem substr_default_length_wraps:
  "map_sum id m_size (substr_from default_policies (cv (lit ''Abcdefg'')) 1) = Inr npos
   \<and> npos \<noteq> m_size (cv (lit ''Abcdefg'')) - 1"
  by code_simp

lemma int_round_trip:
  assumes "unat (w :: size_t) < 2 ^ 31"
  shows "scast (ucast w :: c_int) = w"
proof -
  from assms have "w < 2 ^ 31"
    by (simp add: word_less_nat_alt)
  then have tb: "take_bit 31 w = w"
    by (simp add: take_bit_eq_mask less_mask_eq)
  have low: "n < 31" if "bit w n" for n
  proof -
    from that have "bit (take_bit 31 w) n"
      by (simp add: tb)
    then show ?thesis
      by (simp add: bit_take_bit_iff)
  qed
  show ?thesis
  proof (rule bit_word_eqI)
    fix n :: nat
    assume "n < LENGTH(64)"
    then show "bit (scast (ucast w :: c_int) :: size_t) n \<longleftrightarrow> bit w n"
      using low [of n] low [of 31]
      by (auto simp: bit_word_scast_iff bit_word_ucast_iff)
  qed
qed


lemma in_bounds_passes: "index < a_size \<Longrightarrow> \<not> check_index_out_of_bounds rc a_size index"
  by (cases rc) (simp_all add: check_index_out_of_bounds_def)

lemma substr_in_bounds:
  assumes "index < m_size v" and "unat (m_size v) < 2 ^ 31" and "unat index + unat len < 2 ^ 64"
  shows "\<exists>w. substr pol v index len = Inr w
           \<and> m_str w = ptr_add (m_str v) (unat index)
           \<and> unat (m_size w) = min (unat len) (unat (m_size v) - unat index)
           \<and> content_of w = take (unat len) (drop (unat index) (content_of v))"
proof -
  define chosen where "chosen = (if index + len \<le> m_size v then len else m_size v - index)"
  define w where "w = char_view_n (ptr_add (m_str v) (unat index)) (ucast chosen)"
  have sum: "unat (index + len) = unat index + unat len"
    using assms(3) unat_add_lem [of index len] by simp
  from assms(1) have le: "index \<le> m_size v" and lt: "unat index < unat (m_size v)"
    by (simp_all add: word_less_nat_alt word_le_nat_alt)
  have chosen: "unat chosen = min (unat len) (unat (m_size v) - unat index)"
    using le by (auto simp: chosen_def word_le_nat_alt sum unat_sub)
  with assms(2) have "unat chosen < 2 ^ 31"
    by simp
  then have size: "m_size w = chosen"
    by (simp add: w_def char_view_n_def int_round_trip)
  have sub: "substr pol v index len = Inr w"
    using in_bounds_passes [OF assms(1)] by (simp add: substr_def w_def chosen_def)
  have fit: "unat index + unat chosen \<le> unat (m_size v)"
    using chosen lt by simp
  have "w = \<lparr>m_str = ptr_add (m_str v) (unat index), m_size = of_nat (unat chosen)\<rparr>"
    using size by (simp add: w_def char_view_n_def)
  then have "content_of w = take (unat chosen) (drop (unat index) (content_of v))"
    using content_of_sub [OF fit] by simp
  also have "\<dots> = take (unat len) (drop (unat index) (content_of v))"
    by (simp add: chosen min_def)
  finally have "content_of w = take (unat len) (drop (unat index) (content_of v))" .
  moreover have "m_str w = ptr_add (m_str v) (unat index)"
    by (simp add: w_def char_view_n_def)
  ultimately show ?thesis
    using sub size chosen by blast
qed

text \<open>
  Where the sum does not wrap and the sizes fit an \<^verbatim>\<open>int\<close>, \<^verbatim>\<open>substr\<close> is as documented: for a
  start below the size it returns the view of \<open>len\<close> code units from \<open>index\<close>, clamped to the
  remaining length.
\<close>

theorem substr_clamps:
  assumes "index < m_size v" and "unat (m_size v) < 2 ^ 31" and "unat index + unat len < 2 ^ 64"
  shows "\<exists>w. substr pol v index len = Inr w
           \<and> m_str w = ptr_add (m_str v) (unat index)
           \<and> unat (m_size w) = min (unat len) (unat (m_size v) - unat index)
           \<and> content_of w = take (unat len) (drop (unat index) (content_of v))"
  using assms by (rule substr_in_bounds)

theorem substr_clamps_witness:
  "(5 :: size_t) < m_size (cv (lit ''Abcdefg''))
   \<and> unat (m_size (cv (lit ''Abcdefg''))) < 2 ^ 31
   \<and> unat (5 :: size_t) + unat (5 :: size_t) < 2 ^ 64
   \<and> (\<exists>w. substr default_policies (cv (lit ''Abcdefg'')) 5 5 = Inr w
          \<and> m_str w = ptr_add (m_str (cv (lit ''Abcdefg''))) (unat (5 :: size_t))
          \<and> unat (m_size w) = min (unat (5 :: size_t)) (unat (m_size (cv (lit ''Abcdefg''))) - unat (5 :: size_t))
          \<and> content_of w = take (unat (5 :: size_t)) (drop (unat (5 :: size_t)) (content_of (cv (lit ''Abcdefg'')))))"
proof -
  have a: "(5 :: size_t) < m_size (cv (lit ''Abcdefg''))"
    by (simp add: cv_def lit_def char_view_n_def)
  have b: "unat (m_size (cv (lit ''Abcdefg''))) < 2 ^ 31"
    by (simp add: cv_def lit_def char_view_n_def)
  have c: "unat (5 :: size_t) + unat (5 :: size_t) < 2 ^ 64"
    by simp
  from a b c substr_clamps [OF a b c, of default_policies] show ?thesis
    by blast
qed

text \<open>
  Claim C3. \<open>sign (a.compare(b)) = - sign (b.compare(a))\<close> for all views, also with embedded
  terminators. The code does not: with \<open>a\<close> the empty view and \<open>b\<close> the view of one zero code
  unit, \<open>a.compare(b)\<close> is 0 (the exhausted content is compared with the terminator
  \<^verbatim>\<open>search_text[0]\<close>), and \<open>b.compare(a)\<close> is 1.
\<close>

theorem compare_not_antisymmetric:
  "sign (view_compare_v (cv []) (cv [0 :: 8 word])) = 0
   \<and> sign (view_compare_v (cv [0 :: 8 word]) (cv [])) = 1"
  by (simp add: view_compare_v_def sign_def compare.simps
      cv_def char_view_n_def c_str_def ptr_add_def)

lemma nul_free_step:
  assumes "nul_free p n" and "n \<noteq> 0"
  shows "p 0 \<noteq> 0" and "nul_free (ptr_add p 1) (n - 1)"
proof -
  from assms(2) have pos: "0 < unat n" and pred: "unat (n - 1) = unat n - 1"
    by (simp_all add: unat_gt_0 unat_minus_one)
  from assms(1) have all: "\<And>i. i < unat n \<Longrightarrow> p i \<noteq> 0"
    by (auto simp: nul_free_def std_string_def)
  from all [of 0] pos show "p 0 \<noteq> 0"
    by simp
  have "\<And>i. i < unat n - 1 \<Longrightarrow> p (1 + i) \<noteq> 0"
    using all by simp
  then show "nul_free (ptr_add p 1) (n - 1)"
    by (auto simp: nul_free_def std_string_def ptr_add_def pred)
qed

lemma compare_swap:
  fixes c s :: "'c::{zero,linorder} ptr"
  shows "nul_free c cl \<Longrightarrow> nul_free s sl \<Longrightarrow>
         sint (compare c s cl sl) = - sint (compare s c sl cl)"
proof (induction c s cl sl rule: compare.induct)
  case (1 c s cl sl)
  show ?case
  proof (cases "sl = 0 \<or> cl = 0")
    case True
    with "1.prems" nul_free_step(1) [of c cl] nul_free_step(1) [of s sl] show ?thesis
      by (subst (1 2) compare.simps) auto
  next
    case False
    then have cl: "cl \<noteq> 0" and sl: "sl \<noteq> 0"
      by simp_all
    note c = nul_free_step [OF "1.prems"(1) cl] and s = nul_free_step [OF "1.prems"(2) sl]
    show ?thesis
    proof (cases "c 0 = s 0")
      case True
      with cl sl c s "1.IH" have
        "sint (compare (ptr_add c 1) (ptr_add s 1) (cl - 1) (sl - 1))
         = - sint (compare (ptr_add s 1) (ptr_add c 1) (sl - 1) (cl - 1))"
        by simp
      with True cl sl c(1) show ?thesis
        by (subst (1 2) compare.simps) simp
    next
      case False
      with cl sl show ?thesis
        by (subst (1 2) compare.simps) auto
    qed
  qed
qed

text \<open>
  On views without an embedded terminator \<^verbatim>\<open>compare\<close> is antisymmetric.
\<close>

theorem compare_antisymmetric_nul_free:
  fixes a b :: "'c::{zero,linorder} basic_char_view"
  assumes "nul_free (m_str a) (m_size a)" and "nul_free (m_str b) (m_size b)"
  shows "sign (view_compare_v a b) = - sign (view_compare_v b a)"
  using compare_swap [OF assms] by (simp add: sign_def view_compare_v_def)

theorem compare_antisymmetric_nul_free_witness:
  "nul_free (m_str (cv (lit ''abc''))) (m_size (cv (lit ''abc'')))
   \<and> nul_free (m_str (cv (lit ''abd''))) (m_size (cv (lit ''abd'')))
   \<and> sign (view_compare_v (cv (lit ''abc'')) (cv (lit ''abd'')))
       = - sign (view_compare_v (cv (lit ''abd'')) (cv (lit ''abc'')))"
proof -
  have a: "nul_free (m_str (cv (lit ''abc''))) (m_size (cv (lit ''abc'')))"
    by (simp add: cv_def lit_def char_view_n_def c_str_def nul_free_def std_string_def upt_rec)
  have b: "nul_free (m_str (cv (lit ''abd''))) (m_size (cv (lit ''abd'')))"
    by (simp add: cv_def lit_def char_view_n_def c_str_def nul_free_def std_string_def upt_rec)
  from a b compare_antisymmetric_nul_free [OF a b] show ?thesis
    by blast
qed

text \<open>
  Claim C4. \<open>s.contains(needle)\<close> holds exactly when \<open>s.find(needle)\<close> is not \<open>npos\<close>. The code
  does not for a needle with an embedded terminator: \<^verbatim>\<open>details::contains\<close> tests with
  \<^verbatim>\<open>compare\<close> and \<^verbatim>\<open>details::index_of\<close> with \<^verbatim>\<open>starts_with\<close>, which accepts a mismatch at a zero code
  unit of the needle. For the view \<^verbatim>\<open>"ab"\<close> and the needle \<^verbatim>\<open>("a\0", 2)\<close>, \<open>contains\<close> is false
  and \<open>find\<close> is 0, for the needle as a buffer and as a view.
\<close>

theorem contains_find_differ:
  "view_contains (cv (lit ''ab'')) (c_str [97, 0]) 2 = False
   \<and> find_cn (cv (lit ''ab'')) (c_str [97, 0]) 2 = 0
   \<and> view_contains_v (cv (lit ''ab'')) (cv [97, 0]) = False
   \<and> find_v (cv (lit ''ab'')) (cv [97, 0]) = 0
   \<and> (0 :: size_t) \<noteq> npos"
  by code_simp

lemma compare_is_starts_with:
  fixes c s :: "'c::{zero,linorder} ptr"
  shows "cl = sl \<Longrightarrow> nul_free s sl \<Longrightarrow> (compare c s cl sl = 0) = starts_with c s cl sl"
proof (induction c s cl sl rule: compare.induct)
  case (1 c s cl sl)
  show ?case
  proof (cases "sl = 0")
    case True
    with "1.prems"(1) show ?thesis
      by (subst compare.simps, subst starts_with.simps) simp
  next
    case False
    with "1.prems"(1) have cl: "cl \<noteq> 0"
      by simp
    note s = nul_free_step [OF "1.prems"(2) False]
    show ?thesis
    proof (cases "c 0 = s 0")
      case True
      with False cl s "1.prems"(1) "1.IH" have
        "(compare (ptr_add c 1) (ptr_add s 1) (cl - 1) (sl - 1) = 0)
         = starts_with (ptr_add c 1) (ptr_add s 1) (cl - 1) (sl - 1)"
        by simp
      with True False cl s(1) show ?thesis
        by (subst compare.simps, subst starts_with.simps) simp
    next
      case differ: False
      with False cl s(1) show ?thesis
        by (subst compare.simps, subst starts_with.simps) auto
    qed
  qed
qed

lemma contains_is_index_of:
  fixes c s :: "'c::{zero,linorder} ptr"
  shows "nul_free s sl \<Longrightarrow> unat offset + unat cl < 2 ^ 64 \<Longrightarrow> (sl = 0 \<longrightarrow> offset \<noteq> - 1) \<Longrightarrow>
         contains c s cl sl = (index_of c s cl sl offset \<noteq> - 1)"
proof (induction c s cl sl arbitrary: offset rule: contains.induct)
  case (1 c s cl sl)
  note same = compare_is_starts_with [OF refl "1.prems"(1), of c]
  show ?case
  proof (cases "cl < sl \<or> cl = 0")
    case True
    with "1.prems"(3) show ?thesis
      by (subst contains.simps, subst index_of.simps) auto
  next
    case False
    then have cl: "cl \<noteq> 0"
      by simp
    then have pos: "0 < unat cl" and pred: "unat (cl - 1) = unat cl - 1"
      by (simp_all add: unat_gt_0 unat_minus_one)
    with "1.prems"(2) have succ: "unat (offset + 1) = unat offset + 1"
      by (intro unat_succ) linarith
    from "1.prems"(2) pos have "unat offset \<noteq> unat (- 1 :: size_t)"
      by (simp add: unat_all_ones)
    then have here: "offset \<noteq> - 1"
      by auto
    show ?thesis
    proof (cases "starts_with c s sl sl")
      case True
      with False same here show ?thesis
        by (subst contains.simps, subst index_of.simps) simp
    next
      case miss: False
      then have sl: "sl \<noteq> 0"
        by auto
      from succ pred pos "1.prems"(2) have "unat (offset + 1) + unat (cl - 1) < 2 ^ 64"
        by simp
      with False miss same sl "1.prems"(1) "1.IH" [of "offset + 1"] have
        "contains (ptr_add c 1) s (cl - 1) sl
         = (index_of (ptr_add c 1) s (cl - 1) sl (offset + 1) \<noteq> - 1)"
        by simp
      with False miss same show ?thesis
        by (subst contains.simps, subst index_of.simps) simp
    qed
  qed
qed

text \<open>
  For a needle without an embedded terminator \<^verbatim>\<open>contains\<close> and \<^verbatim>\<open>find\<close> agree, whatever the
  view holds.
\<close>

theorem contains_find_coherent_nul_free:
  fixes v :: "'c::{zero,linorder} basic_char_view"
  assumes "nul_free a_str a_len"
  shows "view_contains v a_str a_len \<longleftrightarrow> find_cn v a_str a_len \<noteq> npos"
proof -
  have "unat (0 :: size_t) + unat (m_size v) < 2 ^ 64"
    using unsigned_less [of "m_size v"] by simp
  moreover have "a_len = 0 \<longrightarrow> (0 :: size_t) \<noteq> - 1"
    by simp
  ultimately show ?thesis
    using contains_is_index_of [OF assms, of 0 "m_size v" "m_str v"]
    by (simp add: view_contains_def find_cn_def npos_def)
qed

theorem contains_find_coherent_nul_free_witness:
  "nul_free (c_str (lit ''bc'')) 2
   \<and> (view_contains (cv (lit ''abcabc'')) (c_str (lit ''bc'')) 2
        \<longleftrightarrow> find_cn (cv (lit ''abcabc'')) (c_str (lit ''bc'')) 2 \<noteq> npos)"
proof -
  have a: "nul_free (c_str (lit ''bc'')) 2"
    by (simp add: lit_def c_str_def nul_free_def std_string_def upt_rec)
  from a contains_find_coherent_nul_free [OF a, of "cv (lit ''abcabc'')"] show ?thesis
    by blast
qed

text \<open>
  Claim C5. \<^verbatim>\<open>front(n)\<close> and \<^verbatim>\<open>back(n)\<close> never signal a range error, also on the empty view.
  The code does under the default policies: both reach \<^verbatim>\<open>substr(0, ...)\<close>, whose bounds check
  \<open>0 \<ge> m_size\<close> fails on the empty view. Only \<^verbatim>\<open>back(0)\<close> returns a view there.
\<close>

theorem front_back_n_raise_on_empty:
  "front_n default_policies (cv ([] :: 8 word list)) 1 = Inl IndexOutOfBounds
   \<and> front_n default_policies (cv ([] :: 8 word list)) 0 = Inl IndexOutOfBounds
   \<and> back_n default_policies (cv ([] :: 8 word list)) 1 = Inl IndexOutOfBounds
   \<and> map_sum id m_size (back_n default_policies (cv ([] :: 8 word list)) 0) = Inr 0"
  by (simp add: front_n_def back_n_def substr_def default_policies_def empty_view_def
      check_index_out_of_bounds_def signal_range_check_error_def cv_def char_view_n_def)

text \<open>
  On a view that is not empty (and whose size fits an \<^verbatim>\<open>int\<close>) \<^verbatim>\<open>front(n)\<close> and \<^verbatim>\<open>back(n)\<close>
  return the first and the last \<open>min n size\<close> code units, under every policy.
\<close>

theorem front_back_n_clamp:
  assumes "m_size v \<noteq> 0" and "unat (m_size v) < 2 ^ 31"
  shows "(\<exists>w. front_n pol v n = Inr w \<and> content_of w = take (unat n) (content_of v))
       \<and> (\<exists>w. back_n pol v n = Inr w
              \<and> content_of w = drop (unat (m_size v) - unat n) (content_of v))"
proof
  have big: "unat (m_size v) < 2 ^ 64"
    using unsigned_less [of "m_size v"] by simp
  from assms(1) have first: "0 < m_size v"
    by (simp add: word_greater_zero_iff)
  define k where "k = (if n \<le> m_size v then n else m_size v)"
  have k: "unat k = min (unat n) (unat (m_size v))"
    by (auto simp: k_def word_le_nat_alt)
  with big have "unat (0 :: size_t) + unat k < 2 ^ 64"
    by simp
  from substr_in_bounds [OF first assms(2) this, of pol] obtain w where
    "substr pol v 0 k = Inr w" and "content_of w = take (unat k) (drop (unat (0 :: size_t)) (content_of v))"
    by blast
  then have "front_n pol v n = Inr w \<and> content_of w = take (unat n) (content_of v)"
    by (simp add: front_n_def k_def [symmetric] k min_def)
  then show "\<exists>w. front_n pol v n = Inr w \<and> content_of w = take (unat n) (content_of v)" ..
next
  have big: "unat (m_size v) < 2 ^ 64"
    using unsigned_less [of "m_size v"] by simp
  from assms(1) have first: "0 < m_size v"
    by (simp add: word_greater_zero_iff)
  consider "n = 0" | "n \<noteq> 0" "n \<le> m_size v" | "\<not> n \<le> m_size v"
    by blast
  then show "\<exists>w. back_n pol v n = Inr w
           \<and> content_of w = drop (unat (m_size v) - unat n) (content_of v)"
  proof cases
    case 1
    then show ?thesis
      by (simp add: back_n_def empty_view_def content_of_def)
  next
    case 2
    then have pos: "0 < unat n" and le: "unat n \<le> unat (m_size v)"
      by (simp_all add: unat_gt_0 word_le_nat_alt)
    from 2(2) have diff: "unat (m_size v - n) = unat (m_size v) - unat n"
      by (rule unat_sub)
    with pos le assms(1) have start: "m_size v - n < m_size v"
      by (simp add: word_less_nat_alt unat_gt_0)
    from diff le big have "unat (m_size v - n) + unat n < 2 ^ 64"
      by simp
    from substr_in_bounds [OF start assms(2) this, of pol] obtain w where
      "substr pol v (m_size v - n) n = Inr w"
      and "content_of w = take (unat n) (drop (unat (m_size v - n)) (content_of v))"
      by blast
    with 2 diff le show ?thesis
      by (simp add: back_n_def)
  next
    case 3
    then have "n \<noteq> 0" and less: "unat (m_size v) < unat n"
      by (auto simp: word_le_nat_alt)
    from big have "unat (0 :: size_t) + unat (m_size v) < 2 ^ 64"
      by simp
    from substr_in_bounds [OF first assms(2) this, of pol] obtain w where
      "substr pol v 0 (m_size v) = Inr w"
      and "content_of w = take (unat (m_size v)) (drop (unat (0 :: size_t)) (content_of v))"
      by blast
    with 3 \<open>n \<noteq> 0\<close> less show ?thesis
      by (simp add: back_n_def)
  qed
qed

theorem front_back_n_clamp_witness:
  "m_size (cv (lit ''Abcdefg'')) \<noteq> 0
   \<and> unat (m_size (cv (lit ''Abcdefg''))) < 2 ^ 31
   \<and> (\<exists>w. front_n default_policies (cv (lit ''Abcdefg'')) 3 = Inr w
          \<and> content_of w = take (unat (3 :: size_t)) (content_of (cv (lit ''Abcdefg''))))
   \<and> (\<exists>w. back_n default_policies (cv (lit ''Abcdefg'')) 3 = Inr w
          \<and> content_of w = drop (unat (m_size (cv (lit ''Abcdefg''))) - unat (3 :: size_t))
                             (content_of (cv (lit ''Abcdefg''))))"
proof -
  have a: "m_size (cv (lit ''Abcdefg'')) \<noteq> 0"
    by (simp add: cv_def lit_def char_view_n_def)
  have b: "unat (m_size (cv (lit ''Abcdefg''))) < 2 ^ 31"
    by (simp add: cv_def lit_def char_view_n_def)
  from a b front_back_n_clamp [OF a b, of default_policies 3] show ?thesis
    by blast
qed

text \<open>
  Claim C10. For a view \<open>v\<close> and a zero-terminated string \<open>x\<close>, exactly one of \<open>v == x\<close> and
  \<open>v != x\<close> holds. The code does not for a view with an embedded terminator: for the view
  \<^verbatim>\<open>("a\0b", 3)\<close> and \<^verbatim>\<open>x = "a"\<close>, \<^verbatim>\<open>equals\<close> finds a common length of 1, not 3, so \<open>v == x\<close> is
  false, and \<^verbatim>\<open>compare\<close> stops with 0 at the two zero code units, so \<open>v != x\<close> is false too.
\<close>

theorem eq_and_ne_both_false:
  "op_eq_z (cv [97, 0, 98 :: 8 word]) (c_str (lit ''a'')) = False
   \<and> op_ne_z (cv [97, 0, 98 :: 8 word]) (c_str (lit ''a'')) = False"
  by (simp add: op_eq_z_def op_ne_z_def view_equals_z_def view_compare_z_def
      common_length.simps compare.simps cv_def lit_def char_view_n_def c_str_def ptr_add_def)

lemma compare_is_equals:
  fixes c x :: "'c::{zero,linorder} ptr"
  shows "nul_free c cl \<Longrightarrow> unat cl < unat sl \<Longrightarrow>
         (compare c x cl sl = 0)
         = (common_length c x cl sl k = k + cl \<and> x (unat cl) = 0)"
proof (induction c x cl sl arbitrary: k rule: compare.induct)
  case (1 c x cl sl)
  from "1.prems"(2) have sl: "sl \<noteq> 0"
    by auto
  show ?case
  proof (cases "cl = 0")
    case True
    with sl show ?thesis
      by (subst compare.simps, subst common_length.simps) simp
  next
    case False
    note c = nul_free_step [OF "1.prems"(1) False]
    from False sl have pred: "unat (cl - 1) = unat cl - 1" "unat (sl - 1) = unat sl - 1"
      and pos: "0 < unat cl"
      by (simp_all add: unat_minus_one unat_gt_0)
    show ?thesis
    proof (cases "c 0 = x 0")
      case True
      from pred pos "1.prems"(2) have "unat (cl - 1) < unat (sl - 1)"
        by simp
      with True False sl c "1.IH" [of "k + 1"] have
        "(compare (ptr_add c 1) (ptr_add x 1) (cl - 1) (sl - 1) = 0)
         = (common_length (ptr_add c 1) (ptr_add x 1) (cl - 1) (sl - 1) (k + 1) = k + 1 + (cl - 1)
            \<and> ptr_add x 1 (unat (cl - 1)) = 0)"
        by simp
      moreover have "ptr_add x 1 (unat (cl - 1)) = x (unat cl)"
        using pred pos by (simp add: ptr_add_def)
      ultimately show ?thesis
        using True False sl c(1) by (subst compare.simps, subst common_length.simps) simp
    next
      case differ: False
      with False sl show ?thesis
        by (subst compare.simps, subst common_length.simps) auto
    qed
  qed
qed

text \<open>
  For a view without an embedded terminator (and of a size other than \<open>npos\<close>) exactly one of
  \<open>v == x\<close> and \<open>v != x\<close> holds.
\<close>

theorem eq_ne_partition_nul_free:
  fixes v :: "'c::{zero,linorder} basic_char_view"
  assumes "nul_free (m_str v) (m_size v)" and "m_size v \<noteq> npos"
  shows "op_eq_z v x \<longleftrightarrow> \<not> op_ne_z v x"
proof -
  have "unat (m_size v) < 2 ^ 64"
    using unsigned_less [of "m_size v"] by simp
  moreover from assms(2) have "unat (m_size v) \<noteq> unat (- 1 :: size_t)"
    by (simp add: npos_def word_unat_eq_iff)
  ultimately have "unat (m_size v) < unat (- 1 :: ssize_t)"
    by (simp add: unat_all_ones)
  from compare_is_equals [OF assms(1) this, of x 0] show ?thesis
    by (simp add: op_eq_z_def op_ne_z_def view_equals_z_def view_compare_z_def)
qed

theorem eq_ne_partition_nul_free_witness:
  "nul_free (m_str (cv (lit ''abc''))) (m_size (cv (lit ''abc'')))
   \<and> m_size (cv (lit ''abc'')) \<noteq> npos
   \<and> (op_eq_z (cv (lit ''abc'')) (c_str (lit ''abd''))
        \<longleftrightarrow> \<not> op_ne_z (cv (lit ''abc'')) (c_str (lit ''abd'')))"
proof -
  have a: "nul_free (m_str (cv (lit ''abc''))) (m_size (cv (lit ''abc'')))"
    by (simp add: cv_def lit_def char_view_n_def c_str_def nul_free_def std_string_def upt_rec)
  have b: "m_size (cv (lit ''abc'')) \<noteq> npos"
    by (simp add: cv_def lit_def char_view_n_def npos_def)
  from a b eq_ne_partition_nul_free [OF a b, of "c_str (lit ''abd'')"] show ?thesis
    by blast
qed

end
